theory Spec2Isabelle
  imports Main "HOL-Library.Word" "HOL-Library.FSet"
begin

unbundle bit_operations_syntax

section \<open>JavaScript strings and numbers\<close>

text \<open>
  A JavaScript string is a sequence of UTF-16 code units: \<^verbatim>\<open>s.length\<close> counts them and
  \<^verbatim>\<open>s.charCodeAt(i)\<close> reads one. Numbers that count or index (positions, attempts,
  lengths, byte totals) are integers far below \<open>2^53\<close>, where JavaScript arithmetic is
  exact; they are modelled as \<open>nat\<close> or \<open>int\<close>.
\<close>

type_synonym codeunit = "16 word"
type_synonym jsstring = "codeunit list"

text \<open>An ASCII literal of the source, as code units.\<close>

definition js :: "string \<Rightarrow> jsstring" where
  "js s = map of_char s"

abbreviation LF :: codeunit where "LF \<equiv> 10"
abbreviation CR :: codeunit where "CR \<equiv> 13"

text \<open>\<^verbatim>\<open>text.split("\n")\<close>: the segments between line feeds; never empty.\<close>

fun split_lines :: "jsstring \<Rightarrow> jsstring list" where
  "split_lines [] = [[]]"
| "split_lines (c # cs) =
     (if c = LF then [] # split_lines cs
      else (case split_lines cs of
              [] \<Rightarrow> [[c]]
            | l # ls \<Rightarrow> (c # l) # ls))"

text \<open>\<^verbatim>\<open>parts.join(sep)\<close>.\<close>

fun join :: "jsstring \<Rightarrow> jsstring list \<Rightarrow> jsstring" where
  "join sep [] = []"
| "join sep [x] = x"
| "join sep (x # y # ys) = x @ sep @ join sep (y # ys)"

text \<open>
  \<^verbatim>\<open>Buffer.byteLength(text, "utf-8")\<close>: one to three bytes for a code unit of the basic
  plane, four for a surrogate pair, three (the replacement character) for a surrogate
  that stands alone.
\<close>

definition isHighSurrogate :: "codeunit \<Rightarrow> bool" where
  "isHighSurrogate c = (0xD800 \<le> c \<and> c \<le> 0xDBFF)"

definition isLowSurrogate :: "codeunit \<Rightarrow> bool" where
  "isLowSurrogate c = (0xDC00 \<le> c \<and> c \<le> 0xDFFF)"

definition unitBytes :: "codeunit \<Rightarrow> nat" where
  "unitBytes c = (if c < 0x80 then 1 else if c < 0x800 then 2 else 3)"

fun byteLength :: "jsstring \<Rightarrow> nat" where
  "byteLength [] = 0"
| "byteLength [c] = unitBytes c"
| "byteLength (c # d # cs) =
     (if isHighSurrogate c \<and> isLowSurrogate d then 4 + byteLength cs
      else unitBytes c + byteLength (d # cs))"

text \<open>
  \<^verbatim>\<open>n.toString(radix)\<close> for a non-negative integer and a radix from 2 to 36 (the source
  uses 10, 16 and 36), with the digits \<open>0-9a-z\<close>.
\<close>

definition digitChar :: "nat \<Rightarrow> codeunit" where
  "digitChar d = (if d < 10 then of_nat (48 + d) else of_nat (87 + d))"

function toStringRadix :: "nat \<Rightarrow> nat \<Rightarrow> jsstring" where
  "toStringRadix radix n =
     (if radix < 2 \<or> n < radix then [digitChar n]
      else toStringRadix radix (n div radix) @ [digitChar (n mod radix)])"
  by pat_completeness auto
termination
  by (relation "measure (\<lambda>(radix, n). n)") auto

text \<open>A number inside a template literal, \<^verbatim>\<open>`${n}`\<close>: its decimal digits.\<close>

definition numToString :: "nat \<Rightarrow> jsstring" where
  "numToString n = toStringRadix 10 n"

text \<open>
  \<^verbatim>\<open>s.toUpperCase()\<close> on the ASCII range. The source applies it to the output of
  \<^verbatim>\<open>toString(16)\<close> and \<^verbatim>\<open>toString(36)\<close> only, where every character is a digit or
  a lower-case ASCII letter.
\<close>

definition toUpperCase :: "jsstring \<Rightarrow> jsstring" where
  "toUpperCase s = map (\<lambda>c. if 0x61 \<le> c \<and> c \<le> 0x7A then c - 0x20 else c) s"

text \<open>\<^verbatim>\<open>s.padStart(n, "0")\<close> with a one-character filler.\<close>

definition padStart :: "nat \<Rightarrow> codeunit \<Rightarrow> jsstring \<Rightarrow> jsstring" where
  "padStart n fill s = replicate (n - length s) fill @ s"

section \<open>Metrics\<close>

record TextMetrics =
  bytes :: int
  lines :: int

definition measureText :: "jsstring \<Rightarrow> TextMetrics" where
  "measureText text =
     \<lparr> bytes = int (byteLength text), lines = int (length (split_lines text)) \<rparr>"

section \<open>Delimiter allocation\<close>

definition DELIMITER_WORDS :: "jsstring list" where
  "DELIMITER_WORDS =
     [js ''PINE'', js ''MANGO'', js ''ORBIT'', js ''RAVEN'', js ''CEDAR'', js ''LOTUS'',
      js ''EMBER'', js ''NOVA'', js ''DUNE'', js ''KITE'', js ''TIDAL'', js ''QUARTZ'',
      js ''ACORN'', js ''BLAZE'', js ''FJORD'', js ''GLYPH'', js ''HARBOR'', js ''IVORY'',
      js ''JUNIPER'', js ''SIERRA'', js ''UMBRA'', js ''VIOLET'', js ''WILLOW'',
      js ''XENON'', js ''YARROW'', js ''ZEPHYR'']"

text \<open>
  \<^verbatim>\<open>x << n\<close> converts \<open>x\<close> to a signed 32-bit integer, shifts, and yields a signed
  32-bit integer; \<^verbatim>\<open>x >>> 0\<close> reads an integer as unsigned 32-bit.
\<close>

definition shiftLeft32 :: "int \<Rightarrow> nat \<Rightarrow> int" where
  "shiftLeft32 x n = sint (push_bit n (word_of_int x :: 32 word))"

definition toUint32 :: "int \<Rightarrow> int" where
  "toUint32 x = uint (word_of_int x :: 32 word)"

definition hashStep :: "int \<Rightarrow> codeunit \<Rightarrow> int" where
  "hashStep hash c = toUint32 (shiftLeft32 hash 5 + hash + uint c)"

definition createPathHash :: "jsstring \<Rightarrow> jsstring" where
  "createPathHash path =
     (let hash = foldl hashStep 5381 path
      in take 6 (padStart 6 0x30 (toUpperCase (toStringRadix 16 (nat hash)))))"

text \<open>
  The specification's wording of the hash, for comparison: seed 5381, step
  \<open>hash * 33 + charCode\<close> modulo \<open>2^32\<close>.
\<close>

definition rollingHash32_spec :: "jsstring \<Rightarrow> nat" where
  "rollingHash32_spec path = foldl (\<lambda>hash c. (hash * 33 + unat c) mod 2 ^ 32) 5381 path"

definition stripTrailingCR :: "jsstring \<Rightarrow> jsstring" where
  "stripTrailingCR line = (if line \<noteq> [] \<and> last line = CR then butlast line else line)"

definition buildLineSet :: "jsstring \<Rightarrow> jsstring fset" where
  "buildLineSet content =
     fold (\<lambda>line s. finsert (stripTrailingCR line) s) (split_lines content) {||}"

definition delimiterWord :: "nat \<Rightarrow> jsstring" where
  "delimiterWord index =
     (if 1 \<le> index \<and> index \<le> length DELIMITER_WORDS then DELIMITER_WORDS ! (index - 1)
      else js ''FILE'' @ numToString index)"

text \<open>The bounded probe \<^verbatim>\<open>for (attempt = 1; attempt <= 256; attempt++)\<close>;
  \<open>None\<close> when all 256 candidates are taken.\<close>

function attemptLoop :: "jsstring fset \<Rightarrow> jsstring \<Rightarrow> nat \<Rightarrow> jsstring option" where
  "attemptLoop lineSet base attempt =
     (if attempt \<le> 256 then
        (let candidate = base @ js ''_'' @ numToString attempt
         in if candidate |\<notin>| lineSet then Some candidate
            else attemptLoop lineSet base (attempt + 1))
      else None)"
  by pat_completeness auto
termination
  by (relation "measure (\<lambda>(lineSet, base, attempt). 257 - attempt)") auto

text \<open>The final \<^verbatim>\<open>while (true)\<close> probe over \<open>fallbackBase_1, fallbackBase_2, ...\<close>.\<close>

function (domintros) suffixLoop :: "jsstring fset \<Rightarrow> jsstring \<Rightarrow> nat \<Rightarrow> jsstring" where
  "suffixLoop lineSet fallbackBase suffix =
     (let candidate = fallbackBase @ js ''_'' @ numToString suffix
      in if candidate |\<notin>| lineSet then candidate
         else suffixLoop lineSet fallbackBase (suffix + 1))"
  by pat_completeness auto

definition pickDelimiter :: "jsstring \<Rightarrow> nat \<Rightarrow> jsstring \<Rightarrow> jsstring" where
  "pickDelimiter path index content =
     (let lineSet = buildLineSet content;
          word = delimiterWord index;
          hash = createPathHash path;
          base = word @ js ''_'' @ numToString index @ js ''_'' @ hash
      in if base |\<notin>| lineSet then base
         else (case attemptLoop lineSet base 1 of
                 Some candidate \<Rightarrow> candidate
               | None \<Rightarrow>
                  (let fallbackBase =
                         base @ js ''_'' @ toUpperCase (toStringRadix 36 (length content))
                   in if fallbackBase |\<notin>| lineSet then fallbackBase
                      else suffixLoop lineSet fallbackBase 1)))"

definition formatContentBlock :: "jsstring \<Rightarrow> jsstring \<Rightarrow> nat \<Rightarrow> jsstring" where
  "formatContentBlock path body index =
     (let delimiter = pickDelimiter path index body
      in js ''@'' @ path @ [LF] @ js ''<<'' @ [0x27] @ delimiter @ [0x27] @ [LF]
         @ body @ [LF] @ delimiter)"

section \<open>The host environment\<close>

text \<open>
  The byte and line ceilings and the head truncation come from the host package, which
  is outside this repository. They are parameters of the model: a host gives the two
  ceilings and \<^verbatim>\<open>truncateHead(content, {maxLines, maxBytes})\<close>, of whose result the
  source reads \<^verbatim>\<open>content\<close> and \<^verbatim>\<open>truncated\<close>.
\<close>

record TruncationResult =
  tr_content :: jsstring
  tr_truncated :: bool

record Host =
  DEFAULT_MAX_BYTES :: int
  DEFAULT_MAX_LINES :: int
  truncateHead :: "jsstring \<Rightarrow> int \<Rightarrow> int \<Rightarrow> TruncationResult"

text \<open>
  An example host, used to instantiate the theorems at concrete inputs: ceilings of
  50 KiB and 2000 lines, and a head truncation that returns the content unchanged when
  it is within both caps, nothing when already the first line is over the byte cap, and
  otherwise the leading whole lines that fit both caps.
\<close>

fun keepHead :: "int \<Rightarrow> int \<Rightarrow> jsstring list \<Rightarrow> int \<Rightarrow> int \<Rightarrow> jsstring list" where
  "keepHead maxLines maxBytes [] i outputBytes = []"
| "keepHead maxLines maxBytes (line # rest) i outputBytes =
     (if i < maxLines then
        (let lineBytes = int (byteLength line) + (if i > 0 then 1 else 0)
         in if outputBytes + lineBytes > maxBytes then []
            else line # keepHead maxLines maxBytes rest (i + 1) (outputBytes + lineBytes))
      else [])"

definition exampleTruncateHead :: "jsstring \<Rightarrow> int \<Rightarrow> int \<Rightarrow> TruncationResult" where
  "exampleTruncateHead content maxLines maxBytes =
     (if int (length (split_lines content)) \<le> maxLines \<and> int (byteLength content) \<le> maxBytes
      then \<lparr> tr_content = content, tr_truncated = False \<rparr>
      else if int (byteLength (hd (split_lines content))) > maxBytes
      then \<lparr> tr_content = [], tr_truncated = True \<rparr>
      else \<lparr> tr_content = join [LF] (keepHead maxLines maxBytes (split_lines content) 0 0),
             tr_truncated = True \<rparr>)"

definition exampleHost :: Host where
  "exampleHost =
     \<lparr> DEFAULT_MAX_BYTES = 51200, DEFAULT_MAX_LINES = 2000,
       truncateHead = exampleTruncateHead \<rparr>"

section \<open>Packing\<close>

text \<open>
  Record fields share one name space in a theory, so the fields of the source's
  interfaces carry a short prefix: \<open>c_\<close> for \<^verbatim>\<open>FileCandidate\<close>, \<open>s_\<close> for
  \<^verbatim>\<open>PackedSection\<close>, \<open>plan_\<close> for \<^verbatim>\<open>PackingPlan\<close>.
\<close>

record FileCandidate =
  c_index :: nat
  c_path :: jsstring
  c_ok :: bool
  c_fullText :: jsstring
  c_fullMetrics :: TextMetrics
  c_body :: "jsstring option"

record PackedSection =
  s_index :: nat
  s_text :: jsstring
  s_metrics :: TextMetrics

datatype PackingStrategy = RequestOrder | SmallestFirst

record PackingPlan =
  plan_strategy :: PackingStrategy
  plan_fullIncluded :: "nat fset"
  plan_partialSection :: "PackedSection option"
  plan_omittedIndexes :: "nat list"
  plan_usedBytes :: int
  plan_usedLines :: int
  plan_sectionCount :: nat
  plan_fullCount :: nat
  plan_fullSuccessCount :: nat

text \<open>The running totals \<^verbatim>\<open>state\<close> of \<^verbatim>\<open>buildPlan\<close>.\<close>

record PackState =
  usedBytes :: int
  usedLines :: int
  sectionCount :: nat

text \<open>
  What the source throws: a \<^verbatim>\<open>TypeError\<close> when \<^verbatim>\<open>candidates[index]\<close> is
  \<^verbatim>\<open>undefined\<close> and a field of it is read, and \<^verbatim>\<open>Error("Operation aborted")\<close>.
\<close>

datatype error = TypeError | OperationAborted

definition canFitSection :: "Host \<Rightarrow> PackState \<Rightarrow> TextMetrics \<Rightarrow> bool" where
  "canFitSection h state metrics =
     (let sepBytes = (if sectionCount state > 0 then 2 else 0);
          sepLines = (if sectionCount state > 0 then 1 else 0)
      in usedBytes state + sepBytes + bytes metrics \<le> DEFAULT_MAX_BYTES h \<and>
         usedLines state + sepLines + lines metrics \<le> DEFAULT_MAX_LINES h)"

definition addSection :: "PackState \<Rightarrow> TextMetrics \<Rightarrow> PackState" where
  "addSection state metrics =
     (let sepBytes = (if sectionCount state > 0 then 2 else 0);
          sepLines = (if sectionCount state > 0 then 1 else 0)
      in \<lparr> usedBytes = usedBytes state + (sepBytes + bytes metrics),
           usedLines = usedLines state + (sepLines + lines metrics),
           sectionCount = sectionCount state + 1 \<rparr>)"

text \<open>The loop \<^verbatim>\<open>for (attempt = 0; attempt < 16; attempt++)\<close> of
  \<^verbatim>\<open>buildPartialSection\<close>, with its two shrinking caps.\<close>

function partialAttempts ::
  "Host \<Rightarrow> FileCandidate \<Rightarrow> jsstring \<Rightarrow> int \<Rightarrow> int \<Rightarrow> int \<Rightarrow> int \<Rightarrow> nat \<Rightarrow> jsstring option"
where
  "partialAttempts h candidate body remainingLines remainingBytes maxBodyLines maxBodyBytes attempt =
     (if attempt < 16 then
        (let trunc = truncateHead h body maxBodyLines maxBodyBytes
         in if tr_content trunc = [] then None
            else
              (let partialText =
                     formatContentBlock (c_path candidate) (tr_content trunc) (c_index candidate + 1);
                   metrics = measureText partialText
               in if lines metrics \<le> remainingLines \<and> bytes metrics \<le> remainingBytes
                  then Some partialText
                  else
                    (let maxBodyLines' =
                           (if lines metrics > remainingLines \<and> maxBodyLines > 1
                            then max 1 (maxBodyLines - (lines metrics - remainingLines))
                            else maxBodyLines);
                         maxBodyBytes' =
                           (if bytes metrics > remainingBytes \<and> maxBodyBytes > 1
                            then max 1 (maxBodyBytes - (bytes metrics - remainingBytes) - 8)
                            else maxBodyBytes)
                     in partialAttempts h candidate body remainingLines remainingBytes
                          maxBodyLines' maxBodyBytes' (attempt + 1))))
      else None)"
  by pat_completeness auto
termination
  by (relation "measure (\<lambda>(h, candidate, body, rl, rb, ml, mb, attempt). 16 - attempt)") auto

definition buildPartialSection :: "Host \<Rightarrow> FileCandidate \<Rightarrow> int \<Rightarrow> int \<Rightarrow> jsstring option" where
  "buildPartialSection h candidate remainingLines remainingBytes =
     (case c_body candidate of
        None \<Rightarrow> None
      | Some body \<Rightarrow>
          if body = [] then None
          else
            (let maxBodyLines = remainingLines - 3
             in if maxBodyLines < 1 \<or> remainingBytes < 32 then None
                else
                  (let maxBodyBytes = max 1 (remainingBytes - 96)
                   in partialAttempts h candidate body remainingLines remainingBytes
                        maxBodyLines maxBodyBytes 0)))"

text \<open>
  The full-block pass \<^verbatim>\<open>for (const index of order)\<close>. The accumulator is the state,
  the set \<^verbatim>\<open>fullIncluded\<close> and the counter \<^verbatim>\<open>fullSuccessCount\<close>.
\<close>

fun fullPass ::
  "Host \<Rightarrow> PackingStrategy \<Rightarrow> FileCandidate list \<Rightarrow> nat list \<Rightarrow> PackState \<times> nat fset \<times> nat
     \<Rightarrow> error + PackState \<times> nat fset \<times> nat"
where
  "fullPass h strategy candidates [] acc = Inr acc"
| "fullPass h strategy candidates (i # order) (state, fullIncluded, fullSuccessCount) =
     (if length candidates \<le> i then Inl TypeError
      else
        (let candidate = candidates ! i
         in if canFitSection h state (c_fullMetrics candidate) then
              fullPass h strategy candidates order
                (addSection state (c_fullMetrics candidate),
                 finsert i fullIncluded,
                 if c_ok candidate then fullSuccessCount + 1 else fullSuccessCount)
            else if strategy = RequestOrder then Inr (state, fullIncluded, fullSuccessCount)
            else fullPass h strategy candidates order (state, fullIncluded, fullSuccessCount)))"

text \<open>The partial pass \<^verbatim>\<open>for (index = 0; index < candidates.length; index++)\<close>.\<close>

function partialPass ::
  "Host \<Rightarrow> FileCandidate list \<Rightarrow> nat fset \<Rightarrow> PackState \<Rightarrow> nat \<Rightarrow> PackedSection option \<times> PackState"
where
  "partialPass h candidates fullIncluded state i =
     (if i < length candidates then
        (if i |\<in>| fullIncluded then partialPass h candidates fullIncluded state (i + 1)
         else
           (let sepBytes = (if sectionCount state > 0 then 2 else 0);
                sepLines = (if sectionCount state > 0 then 1 else 0);
                remainingBytes = DEFAULT_MAX_BYTES h - usedBytes state - sepBytes;
                remainingLines = DEFAULT_MAX_LINES h - usedLines state - sepLines
            in if remainingBytes \<le> 0 \<or> remainingLines \<le> 0 then (None, state)
               else
                 (case buildPartialSection h (candidates ! i) remainingLines remainingBytes of
                    None \<Rightarrow> partialPass h candidates fullIncluded state (i + 1)
                  | Some partialText \<Rightarrow>
                      if partialText = [] then
                        partialPass h candidates fullIncluded state (i + 1)
                      else
                        (let metrics = measureText partialText
                         in (Some \<lparr> s_index = i, s_text = partialText, s_metrics = metrics \<rparr>,
                             addSection state metrics)))))
      else (None, state))"
  by pat_completeness auto
termination
  by (relation "measure (\<lambda>(h, candidates, fullIncluded, state, i). length candidates - i)") auto

definition omitted :: "FileCandidate list \<Rightarrow> nat fset \<Rightarrow> PackedSection option \<Rightarrow> nat list" where
  "omitted candidates fullIncluded partialSection =
     filter (\<lambda>i. \<not> (i |\<in>| fullIncluded \<or> map_option s_index partialSection = Some i))
       [0..<length candidates]"

definition buildPlan ::
  "Host \<Rightarrow> PackingStrategy \<Rightarrow> nat list \<Rightarrow> FileCandidate list \<Rightarrow> error + PackingPlan"
where
  "buildPlan h strategy order candidates =
     (case fullPass h strategy candidates order
             (\<lparr> usedBytes = 0, usedLines = 0, sectionCount = 0 \<rparr>, {||}, 0) of
        Inl e \<Rightarrow> Inl e
      | Inr (state, fullIncluded, fullSuccessCount) \<Rightarrow>
          (let (partialSection, state') = partialPass h candidates fullIncluded state 0
           in Inr \<lparr> plan_strategy = strategy,
                    plan_fullIncluded = fullIncluded,
                    plan_partialSection = partialSection,
                    plan_omittedIndexes = omitted candidates fullIncluded partialSection,
                    plan_usedBytes = usedBytes state',
                    plan_usedLines = usedLines state',
                    plan_sectionCount = sectionCount state',
                    plan_fullCount = fcard fullIncluded,
                    plan_fullSuccessCount = fullSuccessCount \<rparr>))"

section \<open>The orchestrator\<close>

text \<open>
  The single-file read primitive is external. A read tool maps the call number \<open>i\<close>
  (the source passes it in the call id) and the request to the thrown error's message
  (\<open>Inl\<close>) or to the content fragments (\<open>Inr\<close>). The read-level truncation details are
  passed through untouched by the source and are left out. The cancellation signal is
  \<open>aborted i\<close>: what \<^verbatim>\<open>signal?.aborted\<close> reads at the top of iteration \<open>i\<close>.
\<close>

record ReadRequest =
  r_path :: jsstring
  r_offset :: "int option"
  r_limit :: "int option"

datatype ContentItem = TextItem jsstring | ImageItem jsstring jsstring

type_synonym ReadTool = "nat \<Rightarrow> ReadRequest \<Rightarrow> jsstring + ContentItem list"

record ReadManyFileDetail =
  d_path :: jsstring
  d_ok :: bool
  d_error :: "jsstring option"
  d_imageCount :: "nat option"

text \<open>
  The state of the read loop: the two arrays it fills, and the log \<open>rs_reads\<close> of the
  call numbers on which the read tool was invoked (the loop's effect on the outside).
\<close>

record ReadState =
  rs_candidates :: "FileCandidate list"
  rs_fileDetails :: "ReadManyFileDetail list"
  rs_reads :: "nat list"

fun textChunks :: "ContentItem list \<Rightarrow> jsstring list" where
  "textChunks [] = []"
| "textChunks (TextItem t # items) = t # textChunks items"
| "textChunks (ImageItem d m # items) = textChunks items"

fun isImage :: "ContentItem \<Rightarrow> bool" where
  "isImage (ImageItem d m) = True"
| "isImage (TextItem t) = False"

definition imageNote :: "nat \<Rightarrow> jsstring" where
  "imageNote imageCount =
     js ''['' @ numToString imageCount
     @ js '' image attachment(s) omitted; use read on this file for image payload.]''"

definition successBody :: "ContentItem list \<Rightarrow> jsstring" where
  "successBody items =
     (let imageCount = length (filter isImage items);
          body = join [LF] (textChunks items)
      in if body = [] then
           (if imageCount > 0 then imageNote imageCount else js ''[No text content returned]'')
         else if imageCount > 0 then body @ [LF] @ imageNote imageCount
         else body)"

function readLoop ::
  "ReadTool \<Rightarrow> (nat \<Rightarrow> bool) \<Rightarrow> bool \<Rightarrow> ReadRequest list \<Rightarrow> nat \<Rightarrow> ReadState \<Rightarrow> error + ReadState"
where
  "readLoop readTool aborted stopOnError files i st =
     (if i < length files then
        (if aborted i then Inl OperationAborted
         else
           (let request = files ! i
            in case readTool i request of
                 Inr items \<Rightarrow>
                   (let body = successBody items;
                        fullText = formatContentBlock (r_path request) body (i + 1)
                    in readLoop readTool aborted stopOnError files (i + 1)
                         \<lparr> rs_candidates = rs_candidates st @
                              [\<lparr> c_index = i, c_path = r_path request, c_ok = True,
                                 c_fullText = fullText, c_fullMetrics = measureText fullText,
                                 c_body = Some body \<rparr>],
                            rs_fileDetails = rs_fileDetails st @
                              [\<lparr> d_path = r_path request, d_ok = True, d_error = None,
                                 d_imageCount = Some (length (filter isImage items)) \<rparr>],
                            rs_reads = rs_reads st @ [i] \<rparr>)
               | Inl message \<Rightarrow>
                   (let fullText =
                          formatContentBlock (r_path request)
                            (js ''[Error: '' @ message @ js '']'') (i + 1);
                        st' =
                          \<lparr> rs_candidates = rs_candidates st @
                               [\<lparr> c_index = i, c_path = r_path request, c_ok = False,
                                  c_fullText = fullText, c_fullMetrics = measureText fullText,
                                  c_body = None \<rparr>],
                             rs_fileDetails = rs_fileDetails st @
                               [\<lparr> d_path = r_path request, d_ok = False, d_error = Some message,
                                  d_imageCount = None \<rparr>],
                             rs_reads = rs_reads st @ [i] \<rparr>
                    in if stopOnError then Inr st'
                       else readLoop readTool aborted stopOnError files (i + 1) st')))
      else Inr st)"
  by pat_completeness auto
termination
  by (relation "measure (\<lambda>(readTool, aborted, stopOnError, files, i, st). length files - i)") auto

definition requestOrder :: "FileCandidate list \<Rightarrow> nat list" where
  "requestOrder candidates = [0..<length candidates]"

text \<open>The comparator handed to \<^verbatim>\<open>sort\<close>: bytes, then lines, then index.\<close>

definition compareCandidates :: "FileCandidate list \<Rightarrow> nat \<Rightarrow> nat \<Rightarrow> int" where
  "compareCandidates candidates a b =
     (let sizeDelta = bytes (c_fullMetrics (candidates ! a)) - bytes (c_fullMetrics (candidates ! b))
      in if sizeDelta \<noteq> 0 then sizeDelta
         else
           (let lineDelta =
                  lines (c_fullMetrics (candidates ! a)) - lines (c_fullMetrics (candidates ! b))
            in if lineDelta \<noteq> 0 then lineDelta else int a - int b))"

text \<open>
  \<^verbatim>\<open>Array.prototype.sort\<close> with a comparator, as an insertion sort. The comparator
  above is a strict total order on distinct indexes, so every correct sort yields the
  same array.
\<close>

fun insertBy :: "(nat \<Rightarrow> nat \<Rightarrow> int) \<Rightarrow> nat \<Rightarrow> nat list \<Rightarrow> nat list" where
  "insertBy cmp x [] = [x]"
| "insertBy cmp x (y # ys) = (if cmp x y \<le> 0 then x # y # ys else y # insertBy cmp x ys)"

definition sortBy :: "(nat \<Rightarrow> nat \<Rightarrow> int) \<Rightarrow> nat list \<Rightarrow> nat list" where
  "sortBy cmp xs = foldr (insertBy cmp) xs []"

definition smallestFirstOrder :: "FileCandidate list \<Rightarrow> nat list" where
  "smallestFirstOrder candidates = sortBy (compareCandidates candidates) (requestOrder candidates)"

text \<open>Both plans and the switch rule; the result is the chosen plan and
  \<^verbatim>\<open>switchedForCoverage\<close>.\<close>

definition selectPlan :: "Host \<Rightarrow> FileCandidate list \<Rightarrow> error + PackingPlan \<times> bool" where
  "selectPlan h candidates =
     (case buildPlan h RequestOrder (requestOrder candidates) candidates of
        Inl e \<Rightarrow> Inl e
      | Inr requestPlan \<Rightarrow>
          (case buildPlan h SmallestFirst (smallestFirstOrder candidates) candidates of
             Inl e \<Rightarrow> Inl e
           | Inr smallestPlan \<Rightarrow>
               (let switchedForCoverage =
                      plan_fullSuccessCount smallestPlan > plan_fullSuccessCount requestPlan;
                    plan = (if switchedForCoverage then smallestPlan else requestPlan)
                in Inr (plan, switchedForCoverage))))"

text \<open>The rendering loop over the candidates in index order, and the joined text.\<close>

definition sectionAt :: "PackingPlan \<Rightarrow> FileCandidate list \<Rightarrow> nat \<Rightarrow> jsstring list" where
  "sectionAt plan candidates i =
     (if i |\<in>| plan_fullIncluded plan then [c_fullText (candidates ! i)]
      else (case plan_partialSection plan of
              None \<Rightarrow> []
            | Some sec \<Rightarrow> if s_index sec = i then [s_text sec] else []))"

definition renderSections :: "PackingPlan \<Rightarrow> FileCandidate list \<Rightarrow> jsstring list" where
  "renderSections plan candidates = concat (map (sectionAt plan candidates) [0..<length candidates])"

definition plannedOutputText :: "PackingPlan \<Rightarrow> FileCandidate list \<Rightarrow> jsstring" where
  "plannedOutputText plan candidates = join [LF, LF] (renderSections plan candidates)"

record Packing =
  pk_strategy :: PackingStrategy
  pk_switchedForCoverage :: bool
  pk_fullIncludedCount :: nat
  pk_fullIncludedSuccessCount :: nat
  pk_partialIncludedPath :: "jsstring option"
  pk_omittedPaths :: "jsstring list"

record ReadManyDetails =
  processedCount :: nat
  successCount :: nat
  errorCount :: nat
  files :: "ReadManyFileDetail list"
  packing :: Packing
  combinedTruncation :: "TruncationResult option"

text \<open>What \<^verbatim>\<open>execute\<close> returns, with the log of read calls beside it.\<close>

record ExecuteResult =
  outputText :: jsstring
  details :: ReadManyDetails
  reads :: "nat list"

definition execute ::
  "Host \<Rightarrow> ReadTool \<Rightarrow> (nat \<Rightarrow> bool) \<Rightarrow> ReadRequest list \<Rightarrow> bool \<Rightarrow> error + ExecuteResult"
where
  "execute h readTool aborted requests stopOnError =
     (case readLoop readTool aborted stopOnError requests 0
             \<lparr> rs_candidates = [], rs_fileDetails = [], rs_reads = [] \<rparr> of
        Inl e \<Rightarrow> Inl e
      | Inr st \<Rightarrow>
          (let candidates = rs_candidates st;
               fileDetails = rs_fileDetails st
           in case selectPlan h candidates of
                Inl e \<Rightarrow> Inl e
              | Inr (plan, switchedForCoverage) \<Rightarrow>
                  (let outputTruncation =
                         truncateHead h (plannedOutputText plan candidates)
                           (DEFAULT_MAX_LINES h) (DEFAULT_MAX_BYTES h)
                   in Inr \<lparr> outputText = tr_content outputTruncation,
                            details =
                              \<lparr> processedCount = length fileDetails,
                                successCount = length (filter d_ok fileDetails),
                                errorCount = length (filter (\<lambda>f. \<not> d_ok f) fileDetails),
                                files = fileDetails,
                                packing =
                                  \<lparr> pk_strategy = plan_strategy plan,
                                    pk_switchedForCoverage = switchedForCoverage,
                                    pk_fullIncludedCount = plan_fullCount plan,
                                    pk_fullIncludedSuccessCount = plan_fullSuccessCount plan,
                                    pk_partialIncludedPath =
                                      (case plan_partialSection plan of
                                         None \<Rightarrow> None
                                       | Some sec \<Rightarrow>
                                           if s_index sec < length candidates
                                           then Some (c_path (candidates ! s_index sec))
                                           else None),
                                    pk_omittedPaths =
                                      map (\<lambda>i. c_path (candidates ! i)) (plan_omittedIndexes plan) \<rparr>,
                                combinedTruncation =
                                  (if tr_truncated outputTruncation then Some outputTruncation
                                   else None) \<rparr>,
                            reads = rs_reads st \<rparr>)))"

section \<open>A consumer's splitter\<close>

text \<open>
  Modelled from the spec: the splitter is the downstream consumer's and is not part of
  the repository. Following the wire format of the specification and the unit test of
  \<^verbatim>\<open>formatContentBlock\<close>: the first line is the header \<^verbatim>\<open>@<path>\<close>, the second the
  opening marker \<^verbatim>\<open><<'<delimiter>'\<close>, whose delimiter is \<^verbatim>\<open>marker.slice(3, -1)\<close>; the
  body is the lines after the marker up to the first line that is exactly the
  delimiter, joined by line feeds. The result is the path and the body.
\<close>

definition splitBlock :: "jsstring \<Rightarrow> (jsstring \<times> jsstring) option" where
  "splitBlock block =
     (case split_lines block of
        header # marker # rest \<Rightarrow>
          if take 1 header = js ''@'' \<and> take 3 marker = js ''<<'' @ [0x27]
             \<and> 4 \<le> length marker \<and> last marker = 0x27
          then
            (let delimiter = butlast (drop 3 marker);
                 bodyLines = takeWhile (\<lambda>l. l \<noteq> delimiter) rest
             in if length bodyLines < length rest
                then Some (drop 1 header, join [LF] bodyLines)
                else None)
          else None
      | _ \<Rightarrow> None)"

section \<open>Fixtures\<close>

text \<open>\<^verbatim>\<open>makeCandidate\<close> of the unit tests: a candidate around a given full text.\<close>

definition makeCandidate ::
  "jsstring \<Rightarrow> jsstring \<Rightarrow> bool \<Rightarrow> nat \<Rightarrow> jsstring option \<Rightarrow> FileCandidate" where
  "makeCandidate p text ok i body =
     \<lparr> c_index = i, c_path = p, c_ok = ok, c_fullText = text,
       c_fullMetrics = measureText text, c_body = body \<rparr>"

text \<open>A host with small ceilings (64 bytes, 6 lines), for examples that must overflow.\<close>

definition smallHost :: Host where
  "smallHost = exampleHost \<lparr> DEFAULT_MAX_BYTES := 64, DEFAULT_MAX_LINES := 6 \<rparr>"

text \<open>
  A line of 51200 characters, and two reads of one request \<^verbatim>\<open>/a\<close>: one fails with that
  line as its error message, one succeeds with that line as its text (a minified file,
  say). Each comes with the candidate it makes of request 0. The plan that includes
  nothing is \<open>emptyPlan\<close>.
\<close>

definition longLine :: jsstring where
  "longLine = replicate 51200 0x78"

definition longErrorTool :: ReadTool where
  "longErrorTool i request = Inl longLine"

definition longErrorCandidate :: FileCandidate where
  "longErrorCandidate =
     \<lparr> c_index = 0, c_path = js ''/a'', c_ok = False,
       c_fullText = formatContentBlock (js ''/a'') (js ''[Error: '' @ longLine @ js '']'') 1,
       c_fullMetrics =
         measureText (formatContentBlock (js ''/a'') (js ''[Error: '' @ longLine @ js '']'') 1),
       c_body = None \<rparr>"

definition longLineTool :: ReadTool where
  "longLineTool i request = Inr [TextItem longLine]"

definition longLineCandidate :: FileCandidate where
  "longLineCandidate =
     \<lparr> c_index = 0, c_path = js ''/a'', c_ok = True,
       c_fullText = formatContentBlock (js ''/a'') longLine 1,
       c_fullMetrics = measureText (formatContentBlock (js ''/a'') longLine 1),
       c_body = Some longLine \<rparr>"

definition emptyPlan :: PackingPlan where
  "emptyPlan =
     \<lparr> plan_strategy = RequestOrder, plan_fullIncluded = {||}, plan_partialSection = None,
       plan_omittedIndexes = [0], plan_usedBytes = 0, plan_usedLines = 0,
       plan_sectionCount = 0, plan_fullCount = 0, plan_fullSuccessCount = 0 \<rparr>"

section \<open>Properties of the path hash\<close>

declare toStringRadix.simps [simp del]
declare attemptLoop.simps [simp del]
declare partialAttempts.simps [simp del]
declare partialPass.simps [simp del]
declare readLoop.simps [simp del]

lemma toUint32_mod: "toUint32 x = x mod 2 ^ 32"
  by (simp add: toUint32_def uint_word_of_int)

lemma hashStep_spec: "hashStep h c = (h * 33 + uint c) mod 2 ^ 32"
proof -
  have "(word_of_int (shiftLeft32 h 5 + h + uint c) :: 32 word) = word_of_int (h * 33 + uint c)"
    by (simp add: shiftLeft32_def push_bit_eq_mult)
  then have "uint (word_of_int (shiftLeft32 h 5 + h + uint c) :: 32 word) = uint (word_of_int (h * 33 + uint c) :: 32 word)"
    by (rule arg_cong)
  then show ?thesis
    by (simp only: hashStep_def toUint32_def uint_word_of_int) simp
qed

lemma foldl_hashStep: "0 \<le> h \<Longrightarrow> foldl hashStep h path = int (foldl (\<lambda>hash c. (hash * 33 + unat c) mod 2 ^ 32) (nat h) path)"
proof (induction path arbitrary: h)
  case Nil then show ?case by simp
next
  case (Cons c cs)
  have nn: "0 \<le> hashStep h c" by (simp add: hashStep_spec)
  have "hashStep h c = int ((nat h * 33 + unat c) mod 2 ^ 32)"
    using Cons.prems by (simp add: hashStep_spec zmod_int)
  then have "nat (hashStep h c) = (nat h * 33 + unat c) mod 2 ^ 32"
    by simp
  with Cons.IH[OF nn] show ?case by simp
qed

section \<open>Number rendering is injective; the suffix probe terminates\<close>

lemma unat_digitChar: "d < 36 \<Longrightarrow> unat (digitChar d) = (if d < 10 then 48 + d else 87 + d)"
  by (simp add: digitChar_def unat_of_nat del: of_nat_add of_nat_numeral)

lemma digitChar_inj: "d < 36 \<Longrightarrow> e < 36 \<Longrightarrow> digitChar d = digitChar e \<Longrightarrow> d = e"
proof -
  assume d: "d < 36" and e: "e < 36" and eq: "digitChar d = digitChar e"
  from eq have "unat (digitChar d) = unat (digitChar e)" by simp
  with d e show "d = e" by (simp add: unat_digitChar split: if_splits)
qed

lemma toStringRadix_nonempty: "toStringRadix r n \<noteq> []"
  by (subst toStringRadix.simps) simp

lemma toStringRadix_small: "n < r \<Longrightarrow> toStringRadix r n = [digitChar n]"
  by (subst toStringRadix.simps) simp

lemma toStringRadix_large: "2 \<le> r \<Longrightarrow> r \<le> n \<Longrightarrow> toStringRadix r n = toStringRadix r (n div r) @ [digitChar (n mod r)]"
  by (subst toStringRadix.simps) simp

lemma toStringRadix_inj:
  "2 \<le> r \<Longrightarrow> r \<le> 36 \<Longrightarrow> toStringRadix r m = toStringRadix r n \<Longrightarrow> m = n"
proof (induction m arbitrary: n rule: less_induct)
  case (less m)
  show ?case
  proof (cases "m < r")
    case True
    show ?thesis
    proof (cases "n < r")
      case nr: True
      from less.prems True nr have "digitChar m = digitChar n"
        by (simp add: toStringRadix_small)
      with True nr less.prems show ?thesis by (intro digitChar_inj) auto
    next
      case False
      with less.prems True have "[digitChar m] = toStringRadix r (n div r) @ [digitChar (n mod r)]"
        by (simp add: toStringRadix_small toStringRadix_large)
      then show ?thesis using toStringRadix_nonempty[of r "n div r"] by simp
    qed
  next
    case False
    show ?thesis
    proof (cases "n < r")
      case True
      with less.prems False have "toStringRadix r (m div r) @ [digitChar (m mod r)] = [digitChar n]"
        by (simp add: toStringRadix_small toStringRadix_large)
      then show ?thesis using toStringRadix_nonempty[of r "m div r"] by simp
    next
      case nr: False
      from less.prems False nr
      have eq: "toStringRadix r (m div r) @ [digitChar (m mod r)] = toStringRadix r (n div r) @ [digitChar (n mod r)]"
        by (simp add: toStringRadix_large)
      then have e1: "toStringRadix r (m div r) = toStringRadix r (n div r)" and e2: "digitChar (m mod r) = digitChar (n mod r)"
        by simp_all
      have "m div r < m" using False less.prems(1) by (intro div_less_dividend) auto
      from less.IH[OF this less.prems(1,2) e1] have d: "m div r = n div r" .
      have "0 < r" using less.prems(1) by simp
      then have "m mod r < r" and "n mod r < r" by simp_all
      with less.prems(2) have "m mod r < 36" and "n mod r < 36" by linarith+
      with e2 have "m mod r = n mod r" by (intro digitChar_inj)
      with d show ?thesis by (metis div_mult_mod_eq)
    qed
  qed
qed

lemma numToString_inj: "numToString m = numToString n \<Longrightarrow> m = n"
  unfolding numToString_def by (rule toStringRadix_inj) simp_all

lemma candidate_inj: "inj (\<lambda>k. fb @ js ''_'' @ numToString k)"
  by (rule injI) (simp add: numToString_inj)

lemma suffixLoop_total: "suffixLoop_dom (lineSet, fb, n)"
proof (induction "card {k. n \<le> k \<and> fb @ js ''_'' @ numToString k |\<in>| lineSet}" arbitrary: n rule: less_induct)
  case less
  let ?S = "\<lambda>n. {k. n \<le> k \<and> fb @ js ''_'' @ numToString k |\<in>| lineSet}"
  have fin: "finite (?S n)" for n
  proof -
    have "finite ((\<lambda>k. fb @ js ''_'' @ numToString k) -` fset lineSet)"
      by (rule finite_vimageI[OF _ candidate_inj]) simp
    then show ?thesis by (rule rev_finite_subset) auto
  qed
  show ?case
  proof (rule suffixLoop.domintros)
    assume mem: "fb @ js ''_'' @ numToString n |\<in>| lineSet"
    have "n \<in> ?S n" "n \<notin> ?S (Suc n)" "?S (Suc n) \<subseteq> ?S n" using mem by auto
    then have "?S (Suc n) \<subset> ?S n" by blast
    then have "card (?S (Suc n)) < card (?S n)" by (rule psubset_card_mono[OF fin])
    then show "suffixLoop_dom (lineSet, fb, Suc n)" by (rule less)
  qed
qed

termination suffixLoop
  using suffixLoop_total by auto

declare suffixLoop.simps [simp del]

lemma suffixLoop_free: "suffixLoop lineSet fb n |\<notin>| lineSet"
proof (induction lineSet fb n rule: suffixLoop.induct)
  case (1 lineSet fb n)
  then show ?case by (subst suffixLoop.simps) (simp add: Let_def)
qed

lemma suffixLoop_form: "\<exists>k\<ge>n. suffixLoop lineSet fb n = fb @ js ''_'' @ numToString k"
proof (induction lineSet fb n rule: suffixLoop.induct)
  case (1 lineSet fb n)
  show ?case
  proof (cases "fb @ js ''_'' @ numToString n |\<in>| lineSet")
    case True
    with 1 obtain k where "n + 1 \<le> k" "suffixLoop lineSet fb (n + 1) = fb @ js ''_'' @ numToString k"
      by auto
    with True show ?thesis by (subst suffixLoop.simps) (auto simp: Let_def intro!: exI[of _ k])
  next
    case False
    then show ?thesis by (subst suffixLoop.simps) (auto simp: Let_def)
  qed
qed

lemma attemptLoop_Some:
  "attemptLoop lineSet base a = Some c \<Longrightarrow> c |\<notin>| lineSet \<and> (\<exists>k. c = base @ js ''_'' @ numToString k)"
proof (induction lineSet base a rule: attemptLoop.induct)
  case (1 lineSet base a)
  have unf: "attemptLoop lineSet base a =
     (if a \<le> 256 then
        (if base @ js ''_'' @ numToString a |\<notin>| lineSet then Some (base @ js ''_'' @ numToString a)
         else attemptLoop lineSet base (a + 1))
      else None)"
    by (subst attemptLoop.simps) (simp add: Let_def)
  show ?case
  proof (cases "a \<le> 256 \<and> base @ js ''_'' @ numToString a |\<in>| lineSet")
    case True
    with "1.prems" unf have "attemptLoop lineSet base (a + 1) = Some c" by simp
    with True "1.IH" show ?thesis by simp
  next
    case False
    with "1.prems" unf show ?thesis by (auto split: if_splits)
  qed
qed

lemma pickDelimiter_free: "pickDelimiter path index content |\<notin>| buildLineSet content"
  by (auto simp: pickDelimiter_def Let_def suffixLoop_free split: option.splits dest: attemptLoop_Some)

section \<open>The delimiter is free and made of token characters\<close>

lemma digitChar_upper_range:
  assumes "d < 36"
  shows "(if 0x61 \<le> digitChar d \<and> digitChar d \<le> 0x7A then digitChar d - 0x20 else digitChar d) \<in> {0x30..0x5F}"
proof (cases "d < 10")
  case True
  with assms show ?thesis by (simp add: word_le_nat_alt unat_digitChar)
next
  case False
  with assms have le: "(0x20 :: codeunit) \<le> digitChar d" by (simp add: word_le_nat_alt unat_digitChar)
  from False assms show ?thesis by (simp add: word_le_nat_alt unat_digitChar unat_sub[OF le])
qed

lemma digitChar_decimal_range: "d < 10 \<Longrightarrow> digitChar d \<in> {0x30..0x5F}"
  by (simp add: word_le_nat_alt unat_digitChar)

lemma toStringRadix_digits:
  "2 \<le> r \<Longrightarrow> c \<in> set (toStringRadix r n) \<Longrightarrow> \<exists>d<r. c = digitChar d"
proof (induction n arbitrary: c rule: less_induct)
  case (less n)
  show ?case
  proof (cases "n < r")
    case True
    with less.prems show ?thesis by (auto simp: toStringRadix_small)
  next
    case False
    with less.prems have "c \<in> set (toStringRadix r (n div r)) \<or> c = digitChar (n mod r)"
      by (auto simp: toStringRadix_large)
    then show ?thesis
    proof
      assume c: "c \<in> set (toStringRadix r (n div r))"
      have "n div r < n" using False less.prems(1) by (intro div_less_dividend) auto
      from less.IH[OF this less.prems(1) c] show ?thesis .
    next
      assume "c = digitChar (n mod r)"
      moreover have "n mod r < r" using less.prems(1) by simp
      ultimately show ?thesis by blast
    qed
  qed
qed

lemma numToString_range: "set (numToString n) \<subseteq> {0x30..0x5F}"
proof
  fix c assume "c \<in> set (numToString n)"
  then obtain d where "d < 10" "c = digitChar d"
    unfolding numToString_def using toStringRadix_digits[of 10 c n] by auto
  then show "c \<in> {0x30..0x5F}" using digitChar_decimal_range by simp
qed

lemma toUpperCase_toStringRadix_range:
  assumes "2 \<le> r" "r \<le> 36"
  shows "set (toUpperCase (toStringRadix r n)) \<subseteq> {0x30..0x5F}"
proof
  fix c assume "c \<in> set (toUpperCase (toStringRadix r n))"
  then obtain c0 where c0: "c0 \<in> set (toStringRadix r n)"
    and c: "c = (if 0x61 \<le> c0 \<and> c0 \<le> 0x7A then c0 - 0x20 else c0)"
    by (auto simp: toUpperCase_def)
  from toStringRadix_digits[OF assms(1) c0] obtain d where d: "d < r" "c0 = digitChar d" by blast
  with assms(2) have "d < 36" by simp
  from digitChar_upper_range[OF this] show "c \<in> {0x30..0x5F}" unfolding c d(2) .
qed

lemma createPathHash_range: "set (createPathHash p) \<subseteq> {0x30..0x5F}"
proof -
  have "set (padStart 6 0x30 (toUpperCase (toStringRadix 16 n))) \<subseteq> {0x30..0x5F}" for n
    using toUpperCase_toStringRadix_range[of 16 n] by (auto simp: padStart_def)
  then show ?thesis
    unfolding createPathHash_def Let_def by (meson set_take_subset subset_trans)
qed

lemma hexDigit_upper_range:
  assumes "d < 16"
  shows "(if 0x61 \<le> digitChar d \<and> digitChar d \<le> 0x7A then digitChar d - 0x20 else digitChar d)
           \<in> {0x30..0x39} \<union> {0x41..0x46}"
proof (cases "d < 10")
  case True
  with assms show ?thesis by (simp add: word_le_nat_alt unat_digitChar)
next
  case False
  with assms have le: "(0x20 :: codeunit) \<le> digitChar d" by (simp add: word_le_nat_alt unat_digitChar)
  from False assms show ?thesis by (simp add: word_le_nat_alt unat_digitChar unat_sub[OF le])
qed

lemma createPathHash_hex: "set (createPathHash p) \<subseteq> {0x30..0x39} \<union> {0x41..0x46}"
proof -
  have "set (toUpperCase (toStringRadix 16 n)) \<subseteq> {0x30..0x39} \<union> {0x41..0x46}" for n
  proof
    fix c assume "c \<in> set (toUpperCase (toStringRadix 16 n))"
    then obtain c0 where c0: "c0 \<in> set (toStringRadix 16 n)"
      and c: "c = (if 0x61 \<le> c0 \<and> c0 \<le> 0x7A then c0 - 0x20 else c0)"
      by (auto simp: toUpperCase_def)
    from toStringRadix_digits[of 16 c0 n] c0 obtain d where d: "d < 16" "c0 = digitChar d" by auto
    from hexDigit_upper_range[OF d(1)] show "c \<in> {0x30..0x39} \<union> {0x41..0x46}" unfolding c d(2) .
  qed
  then have "set (padStart 6 0x30 (toUpperCase (toStringRadix 16 n))) \<subseteq> {0x30..0x39} \<union> {0x41..0x46}" for n
    by (auto simp: padStart_def)
  then show ?thesis
    unfolding createPathHash_def Let_def by (meson set_take_subset subset_trans)
qed

lemma createPathHash_length: "length (createPathHash p) = 6"
  by (simp add: createPathHash_def Let_def padStart_def)

text \<open>
  Claim C10. \<^verbatim>\<open>createPathHash(path)\<close> is the 32-bit rolling hash of the specification
  (seed 5381, step \<open>hash * 33 + charCode\<close> modulo \<open>2^32\<close>), written in upper-case
  hexadecimal, padded on the left with zeros to 6 characters and cut to its first 6
  characters. The result has exactly 6 characters, each of them one of \<open>0-9A-F\<close>.
\<close>

theorem createPathHash_refines_spec:
  "createPathHash path
     = take 6 (padStart 6 0x30 (toUpperCase (toStringRadix 16 (rollingHash32_spec path))))
   \<and> length (createPathHash path) = 6
   \<and> set (createPathHash path) \<subseteq> {0x30..0x39} \<union> {0x41..0x46}"
proof -
  have "foldl hashStep 5381 path = int (rollingHash32_spec path)"
    using foldl_hashStep[of 5381 path] by (simp add: rollingHash32_spec_def)
  then have "createPathHash path
     = take 6 (padStart 6 0x30 (toUpperCase (toStringRadix 16 (rollingHash32_spec path))))"
    by (simp only: createPathHash_def Let_def nat_int)
  with createPathHash_length createPathHash_hex show ?thesis by blast
qed

lemma DELIMITER_WORDS_range: "w \<in> set DELIMITER_WORDS \<Longrightarrow> set w \<subseteq> {0x30..0x5F}"
  by (auto simp: DELIMITER_WORDS_def js_def)

lemma delimiterWord_range: "set (delimiterWord i) \<subseteq> {0x30..0x5F}"
proof (cases "1 \<le> i \<and> i \<le> length DELIMITER_WORDS")
  case True
  then have "DELIMITER_WORDS ! (i - 1) \<in> set DELIMITER_WORDS" by (intro nth_mem) auto
  with True show ?thesis using DELIMITER_WORDS_range by (simp add: delimiterWord_def)
next
  case False
  have "set (js ''FILE'') \<subseteq> {0x30..0x5F}" by (simp add: js_def)
  with False show ?thesis using numToString_range[of i] by (auto simp: delimiterWord_def)
qed

lemma underscore_range: "set (js ''_'') \<subseteq> {0x30..0x5F}"
  by (simp add: js_def)

lemma pickDelimiter_range: "set (pickDelimiter p i content) \<subseteq> {0x30..0x5F}"
proof -
  let ?base = "delimiterWord i @ js ''_'' @ numToString i @ js ''_'' @ createPathHash p"
  let ?fb = "?base @ js ''_'' @ toUpperCase (toStringRadix 36 (length content))"
  have base: "set ?base \<subseteq> {0x30..0x5F}"
    using delimiterWord_range[of i] numToString_range[of i] createPathHash_range[of p] underscore_range
    by auto
  have fb: "set ?fb \<subseteq> {0x30..0x5F}"
    using base toUpperCase_toStringRadix_range[of 36 "length content"] underscore_range by auto
  have att: "set c \<subseteq> {0x30..0x5F}" if "attemptLoop ls ?base 1 = Some c" for ls c
  proof -
    from attemptLoop_Some[OF that] obtain k where "c = ?base @ js ''_'' @ numToString k" by blast
    then show ?thesis using base numToString_range[of k] underscore_range by auto
  qed
  have suf: "set (suffixLoop ls ?fb 1) \<subseteq> {0x30..0x5F}" for ls
  proof -
    from suffixLoop_form[of 1 ls ?fb] obtain k where "suffixLoop ls ?fb 1 = ?fb @ js ''_'' @ numToString k" by blast
    then show ?thesis using fb numToString_range[of k] underscore_range by auto
  qed
  show ?thesis
    unfolding pickDelimiter_def Let_def
    using base fb att suf by (simp split: option.splits)
qed

lemma pickDelimiter_no_LF: "LF \<notin> set (pickDelimiter p i content)"
  using pickDelimiter_range[of p i content] by auto

lemma pickDelimiter_no_CR: "CR \<notin> set (pickDelimiter p i content)"
  using pickDelimiter_range[of p i content] by auto

lemma buildLineSet_eq: "buildLineSet content = fset_of_list (map stripTrailingCR (split_lines content))"
proof -
  have "fold (\<lambda>line s. finsert (stripTrailingCR line) s) ls acc = fset_of_list (map stripTrailingCR ls) |\<union>| acc" for ls acc
    by (induction ls arbitrary: acc) auto
  then show ?thesis by (simp add: buildLineSet_def)
qed

lemma stripTrailingCR_id: "CR \<notin> set l \<Longrightarrow> stripTrailingCR l = l"
proof -
  assume "CR \<notin> set l"
  then have "\<not> (l \<noteq> [] \<and> last l = CR)" using last_in_set[of l] by metis
  then show ?thesis unfolding stripTrailingCR_def by (simp only: if_False)
qed

lemma pickDelimiter_not_stripped_line:
  "pickDelimiter p i content \<notin> stripTrailingCR ` set (split_lines content)"
proof
  assume "pickDelimiter p i content \<in> stripTrailingCR ` set (split_lines content)"
  then have "pickDelimiter p i content |\<in>| buildLineSet content"
    unfolding buildLineSet_eq by (simp only: fset_of_list_elem set_map)
  with pickDelimiter_free show False by blast
qed

lemma pickDelimiter_fresh: "pickDelimiter p i content \<notin> set (split_lines content)"
proof
  assume "pickDelimiter p i content \<in> set (split_lines content)"
  then have "stripTrailingCR (pickDelimiter p i content) \<in> stripTrailingCR ` set (split_lines content)"
    by (rule imageI)
  then show False
    using pickDelimiter_not_stripped_line[of p i content]
    by (simp add: stripTrailingCR_id[OF pickDelimiter_no_CR])
qed

text \<open>
  Claim C1. For every path, position and content, the delimiter that
  \<^verbatim>\<open>pickDelimiter\<close> returns is not a line of the content: it differs from every
  segment of \<^verbatim>\<open>content.split("\n")\<close>.
\<close>

theorem pickDelimiter_not_a_line:
  "pickDelimiter path index content \<notin> set (split_lines content)"
proof
  let ?d = "pickDelimiter path index content"
  assume "?d \<in> set (split_lines content)"
  then have "stripTrailingCR ?d \<in> stripTrailingCR ` set (split_lines content)"
    by (rule imageI)
  moreover have "stripTrailingCR ?d = ?d"
    by (rule stripTrailingCR_id[OF pickDelimiter_no_CR])
  ultimately show False
    using pickDelimiter_not_stripped_line[of path index content] by simp
qed

text \<open>
  Claim C9. \<^verbatim>\<open>pickDelimiter\<close> terminates on every input. Its only unbounded loop is
  the final suffix probe: every start of that loop lies in the terminating domain of
  its recursion, the loop returns \<open>fallbackBase_k\<close> for some \<open>k\<close> from the starting suffix
  on, and that token is not in the line set; so \<^verbatim>\<open>pickDelimiter\<close> returns a token
  outside the line set of the content.
\<close>

theorem pickDelimiter_terminates:
  "suffixLoop_dom (lineSet, fallbackBase, suffix)
   \<and> (\<exists>k\<ge>suffix. suffixLoop lineSet fallbackBase suffix = fallbackBase @ js ''_'' @ numToString k)
   \<and> suffixLoop lineSet fallbackBase suffix |\<notin>| lineSet
   \<and> pickDelimiter path index content |\<notin>| buildLineSet content"
  using suffixLoop_total suffixLoop_form suffixLoop_free pickDelimiter_free by blast

section \<open>Framing a block and splitting it again\<close>

lemma split_lines_nonempty: "split_lines s \<noteq> []"
  by (induction s) (auto split: list.splits)

lemma split_lines_append_LF: "split_lines (a @ LF # b) = split_lines a @ split_lines b"
proof (induction a)
  case Nil then show ?case by simp
next
  case (Cons c cs)
  obtain l ls where "split_lines cs = l # ls" using split_lines_nonempty[of cs] by (cases "split_lines cs") auto
  with Cons show ?case by simp
qed

lemma split_lines_no_LF: "LF \<notin> set a \<Longrightarrow> split_lines a = [a]"
  by (induction a) auto

lemma join_split_lines: "join [LF] (split_lines s) = s"
proof (induction s)
  case Nil then show ?case by simp
next
  case (Cons c cs)
  obtain l ls where ls: "split_lines cs = l # ls" using split_lines_nonempty[of cs] by (cases "split_lines cs") auto
  show ?case
  proof (cases "c = LF")
    case True
    with Cons ls show ?thesis by simp
  next
    case False
    with Cons ls show ?thesis by (cases ls) auto
  qed
qed

lemma split_lines_block:
  assumes "LF \<notin> set p"
  shows "split_lines (formatContentBlock p body i) =
    (js ''@'' @ p) # (js ''<<'' @ [0x27] @ pickDelimiter p i body @ [0x27]) # split_lines body @ [pickDelimiter p i body]"
proof -
  let ?d = "pickDelimiter p i body"
  let ?h = "js ''@'' @ p"
  let ?m = "js ''<<'' @ [0x27] @ ?d @ [0x27]"
  have d: "LF \<notin> set ?d" by (rule pickDelimiter_no_LF)
  have h: "LF \<notin> set ?h" using assms by (simp add: js_def)
  have m: "LF \<notin> set ?m" using d by (simp add: js_def)
  have "formatContentBlock p body i = ?h @ LF # (?m @ LF # (body @ LF # ?d))"
    by (simp add: formatContentBlock_def Let_def)
  then show ?thesis
    by (simp only: split_lines_append_LF split_lines_no_LF[OF h] split_lines_no_LF[OF m] split_lines_no_LF[OF d]) simp
qed

text \<open>
  Claim C2, amended. For every path that contains no line feed, every body and every
  position, splitting the block of \<^verbatim>\<open>formatContentBlock\<close> at its header line, its
  opening marker line and its closing delimiter line gives back the path and the body,
  code unit for code unit; the body is not escaped.
\<close>

theorem formatContentBlock_roundtrip:
  assumes "LF \<notin> set path"
  shows "splitBlock (formatContentBlock path body index) = Some (path, body)"
proof -
  let ?d = "pickDelimiter path index body"
  let ?m = "js ''<<'' @ [0x27] @ ?d @ [0x27]"
  have tw: "takeWhile (\<lambda>l. l \<noteq> ?d) (split_lines body @ [?d]) = split_lines body"
    using pickDelimiter_fresh[of path index body] by (simp add: takeWhile_append)
  have m1: "take 3 ?m = js ''<<'' @ [0x27]" by (simp add: js_def)
  have m2: "4 \<le> length ?m" by (simp add: js_def)
  have m3: "last ?m = 0x27" by simp
  have m4: "butlast (drop 3 ?m) = ?d" by (simp add: js_def butlast_append)
  have h1: "take 1 (js ''@'' @ path) = js ''@''" by (simp add: js_def)
  have h2: "drop 1 (js ''@'' @ path) = path" by (simp add: js_def)
  show ?thesis
    unfolding splitBlock_def split_lines_block[OF assms]
    by (simp only: list.case m1 m2 m3 m4 h1 h2 Let_def tw join_split_lines) simp
qed

theorem formatContentBlock_roundtrip_witness:
  "splitBlock (formatContentBlock (js ''/tmp/file.txt'') (js ''line 1'' @ [LF] @ js ''line 2'') 3)
     = Some (js ''/tmp/file.txt'', js ''line 1'' @ [LF] @ js ''line 2'')"
  by (rule formatContentBlock_roundtrip) (simp add: js_def)

text \<open>
  The claim as stated, for every path, fails: the path is written into the header
  unescaped, so a path with a line feed pushes its second line into the place of the
  opening marker. Here the splitter reads the marker \<open><<'E'\<close> out of the path and stops
  at the body's line \<open>E\<close>: what it returns is not the body.
\<close>

theorem formatContentBlock_roundtrip_counterexample:
  "map_option snd
     (splitBlock (formatContentBlock (js ''a'' @ [LF] @ js ''<<'' @ [0x27] @ js ''E'' @ [0x27])
                    (js ''x'' @ [LF] @ js ''E'' @ [LF] @ js ''y'') 1))
   \<noteq> Some (js ''x'' @ [LF] @ js ''E'' @ [LF] @ js ''y'')"
proof -
  let ?P = "js ''a'' @ [LF] @ js ''<<'' @ [0x27] @ js ''E'' @ [0x27]"
  let ?B = "js ''x'' @ [LF] @ js ''E'' @ [LF] @ js ''y''"
  let ?D = "pickDelimiter ?P 1 ?B"
  let ?M = "[0x3C, 0x3C, 0x27] @ ?D @ [0x27]"
  have d: "LF \<notin> set ?D" by (rule pickDelimiter_no_LF)
  then have m: "LF \<notin> set ?M" by simp
  have "formatContentBlock ?P ?B 1 =
      [0x40, 0x61] @ LF # ([0x3C, 0x3C, 0x27, 0x45, 0x27] @ LF # (?M @ LF # ([0x78] @ LF # ([0x45] @ LF # ([0x79] @ LF # ?D)))))"
    by (simp add: formatContentBlock_def Let_def js_def)
  then have sl: "split_lines (formatContentBlock ?P ?B 1) =
      [[0x40, 0x61], [0x3C, 0x3C, 0x27, 0x45, 0x27], ?M, [0x78], [0x45], [0x79], ?D]"
    by (simp only: split_lines_append_LF split_lines_no_LF[OF m] split_lines_no_LF[OF d]) simp
  have ne: "?M \<noteq> [0x45]" by simp
  have "splitBlock (formatContentBlock ?P ?B 1) = Some ([0x61], ?M @ LF # [0x78])"
    unfolding splitBlock_def sl using ne by (simp add: js_def Let_def)
  then show ?thesis by (simp add: js_def)
qed

text \<open>
  No splitter at all can serve every path. The hash of a path is short, so a second path
  is easily found that extends the first by a marker line and further characters and
  has the same hash; the two framings below are the same text, with different bodies.
\<close>

lemma hash_collision:
  "createPathHash (js ''a'') = js ''02B606''"
  "createPathHash (js ''a\<newline><<'' @ [0x27] @ js ''PINE_1_02B606'' @ [0x27] @ js ''\<newline>1PP8H><'') = js ''02B606''"
  unfolding createPathHash_def Let_def
  by (simp_all add: js_def hashStep_spec padStart_def toUpperCase_def toStringRadix.simps digitChar_def)

lemma delimiter_collision:
  "pickDelimiter (js ''a'') (Suc 0)
     (js ''1PP8H><\<newline><<'' @ [0x27] @ js ''PINE_1_02B606'' @ [0x27] @ js ''\<newline>y'')
   = js ''PINE_1_02B606''"
  "pickDelimiter (js ''a\<newline><<'' @ [0x27] @ js ''PINE_1_02B606'' @ [0x27] @ js ''\<newline>1PP8H><'')
     (Suc 0) (js ''y'')
   = js ''PINE_1_02B606''"
  unfolding pickDelimiter_def Let_def hash_collision buildLineSet_def
  by (simp_all add: js_def delimiterWord_def DELIMITER_WORDS_def numToString_def toStringRadix.simps
      digitChar_def stripTrailingCR_def)

lemma formatContentBlock_not_injective:
  "formatContentBlock (js ''a'')
     (js ''1PP8H><\<newline><<'' @ [0x27] @ js ''PINE_1_02B606'' @ [0x27] @ js ''\<newline>y'') 1
   = formatContentBlock
       (js ''a\<newline><<'' @ [0x27] @ js ''PINE_1_02B606'' @ [0x27] @ js ''\<newline>1PP8H><'') (js ''y'') 1
   \<and> js ''1PP8H><\<newline><<'' @ [0x27] @ js ''PINE_1_02B606'' @ [0x27] @ js ''\<newline>y'' \<noteq> js ''y''"
  unfolding formatContentBlock_def Let_def One_nat_def delimiter_collision
  by (simp add: js_def)

lemma no_splitter_for_every_path:
  "\<nexists>f. \<forall>p body i. f (formatContentBlock p body i) = body"
proof
  assume "\<exists>f. \<forall>p body i. f (formatContentBlock p body i) = body"
  then obtain f :: "jsstring \<Rightarrow> jsstring" where f: "\<And>p body i. f (formatContentBlock p body i) = body"
    by blast
  let ?b1 = "js ''1PP8H><\<newline><<'' @ [0x27] @ js ''PINE_1_02B606'' @ [0x27] @ js ''\<newline>y''"
  let ?p2 = "js ''a\<newline><<'' @ [0x27] @ js ''PINE_1_02B606'' @ [0x27] @ js ''\<newline>1PP8H><''"
  from f[of "js ''a''" ?b1 1] f[of ?p2 "js ''y''" 1] formatContentBlock_not_injective
  show False by metis
qed

section \<open>Concrete evaluations\<close>

lemma surrogate_not_ascii: "c < 0x80 \<Longrightarrow> \<not> isHighSurrogate c"
  by (simp add: isHighSurrogate_def word_le_nat_alt word_less_nat_alt)

lemma byteLength_ascii: "\<forall>c \<in> set s. c < 0x80 \<Longrightarrow> byteLength s = length s"
  by (induction s rule: byteLength.induct) (simp_all add: unitBytes_def surrogate_not_ascii)

lemma measureText_ascii_line:
  "\<forall>c \<in> set s. c < 0x80 \<Longrightarrow> LF \<notin> set s \<Longrightarrow> measureText s = \<lparr> bytes = int (length s), lines = 1 \<rparr>"
  by (simp add: measureText_def byteLength_ascii split_lines_no_LF)

lemma js_append: "js (a @ b) = js a @ js b"
  by (simp add: js_def)

lemma unat_of_char: "unat (of_char x :: codeunit) = (of_char x :: nat)"
proof -
  have "(of_char x :: nat) mod 256 = of_char x" by (rule of_char_mod_256)
  then have "(of_char x :: nat) < 256" by (metis mod_less_divisor zero_less_numeral)
  then have lt: "(of_char x :: nat) < 65536" by linarith
  have "(of_char x :: codeunit) = of_nat (of_char x)" by (simp add: of_nat_of_char)
  then have "unat (of_char x :: codeunit) = (of_char x :: nat) mod 65536"
    by (simp only: unat_of_nat) simp
  with lt show ?thesis by simp
qed

lemma of_char_word_inj: "(of_char c :: codeunit) = of_char d \<Longrightarrow> c = d"
proof -
  assume "(of_char c :: codeunit) = of_char d"
  then have "unat (of_char c :: codeunit) = unat (of_char d :: codeunit)" by simp
  then have "(of_char c :: nat) = of_char d" by (simp only: unat_of_char)
  then show "c = d" by (metis char_of_char)
qed

lemma js_eq_iff: "js a = js b \<longleftrightarrow> a = b"
proof
  assume "js a = js b"
  then show "a = b"
    unfolding js_def by (induction a arbitrary: b) (auto dest: of_char_word_inj)
qed simp

lemma js_Nil_iff: "js s = [] \<longleftrightarrow> s = []"
  by (simp add: js_def)

text \<open>The suffix probe at work: two taken suffixes, the third is free.\<close>

lemma suffixLoop_example:
  "suffixLoop {|js ''X_1'', js ''X_2''|} (js ''X'') 1 = js ''X_3''"
proof -
  have n: "numToString 1 = js ''1''" "numToString 2 = js ''2''" "numToString 3 = js ''3''"
    by (simp_all add: numToString_def toStringRadix.simps digitChar_def js_def)
  have s3: "suffixLoop {|js ''X_1'', js ''X_2''|} (js ''X'') 3 = js ''X_3''"
    by (subst suffixLoop.simps) (simp add: n js_append[symmetric] js_eq_iff Let_def)
  have s2: "suffixLoop {|js ''X_1'', js ''X_2''|} (js ''X'') 2 = js ''X_3''"
    by (subst suffixLoop.simps) (simp add: n s3 js_append[symmetric] js_eq_iff Let_def)
  show ?thesis
    by (subst suffixLoop.simps) (simp add: n s2 js_append[symmetric] js_eq_iff Let_def del: One_nat_def)
qed

lemma hash_a: "createPathHash (js ''/a'') = js ''5970B5''"
  unfolding createPathHash_def Let_def
  by (simp add: js_def hashStep_spec padStart_def toUpperCase_def toStringRadix.simps digitChar_def)

lemma delimiter_a: "pickDelimiter (js ''/a'') (Suc 0) (js ''a'') = js ''PINE_1_5970B5''"
  unfolding pickDelimiter_def Let_def hash_a buildLineSet_def
  by (simp add: js_def delimiterWord_def DELIMITER_WORDS_def numToString_def toStringRadix.simps
      digitChar_def stripTrailingCR_def)

lemma block_a:
  "formatContentBlock (js ''/a'') (js ''a'') (Suc 0) =
     js ''@/a\<newline><<'' @ [0x27] @ js ''PINE_1_5970B5'' @ [0x27] @ js ''\<newline>a\<newline>PINE_1_5970B5''"
  unfolding formatContentBlock_def Let_def delimiter_a by (simp add: js_def)

lemma block_a_metrics:
  "measureText (formatContentBlock (js ''/a'') (js ''a'') (Suc 0)) = \<lparr> bytes = 37, lines = 4 \<rparr>"
  unfolding block_a by (simp add: measureText_def js_def unitBytes_def isHighSurrogate_def)

section \<open>The full-block pass\<close>

lemma fullPass_request_stop:
  "fullPass h RequestOrder cs pre acc = Inr (st, inc, cnt) \<Longrightarrow> x < length cs
   \<Longrightarrow> \<not> canFitSection h st (c_fullMetrics (cs ! x))
   \<Longrightarrow> fullPass h RequestOrder cs (pre @ x # post) acc = Inr (st, inc, cnt)"
proof (induction pre arbitrary: acc)
  case Nil
  then show ?case by (cases acc) simp
next
  case (Cons a pre)
  obtain s0 i0 c0 where acc: "acc = (s0, i0, c0)" by (cases acc) auto
  show ?case
  proof (cases "length cs \<le> a")
    case True
    with Cons.prems(1) acc show ?thesis by simp
  next
    case False
    show ?thesis
    proof (cases "canFitSection h s0 (c_fullMetrics (cs ! a))")
      case True
      with False Cons.prems acc show ?thesis
        by (simp add: Let_def Cons.IH)
    next
      case nofit: False
      with False Cons.prems acc show ?thesis by (simp add: Let_def)
    qed
  qed
qed

lemma fullPass_included_subset:
  "fullPass h s cs order (st, inc, cnt) = Inr (st', inc', cnt') \<Longrightarrow> fset inc' \<subseteq> fset inc \<union> set order"
proof (induction order arbitrary: st inc cnt)
  case Nil
  then show ?case by simp
next
  case (Cons a order)
  show ?case
  proof (cases "length cs \<le> a")
    case True
    with Cons.prems show ?thesis by simp
  next
    case False
    show ?thesis
    proof (cases "canFitSection h st (c_fullMetrics (cs ! a))")
      case True
      with False Cons.prems have
        "fullPass h s cs order (addSection st (c_fullMetrics (cs ! a)), finsert a inc,
           if c_ok (cs ! a) then cnt + 1 else cnt) = Inr (st', inc', cnt')"
        by (simp add: Let_def)
      from Cons.IH[OF this] show ?thesis by auto
    next
      case nofit: False
      show ?thesis
      proof (cases "s = RequestOrder")
        case True
        with nofit False Cons.prems show ?thesis by (auto simp: Let_def)
      next
        case False2: False
        with nofit False Cons.prems have "fullPass h s cs order (st, inc, cnt) = Inr (st', inc', cnt')"
          by (simp add: Let_def)
        from Cons.IH[OF this] show ?thesis by auto
      qed
    qed
  qed
qed

lemma buildPlan_fullIncluded:
  "fullPass h s cs order (\<lparr> usedBytes = 0, usedLines = 0, sectionCount = 0 \<rparr>, {||}, 0) = Inr (st, inc, cnt)
   \<Longrightarrow> \<exists>plan. buildPlan h s order cs = Inr plan \<and> plan_fullIncluded plan = inc
        \<and> plan_fullSuccessCount plan = cnt \<and> plan_strategy plan = s"
  by (simp add: buildPlan_def split: prod.splits)

text \<open>
  Claim C4. In a plan built with the request-order strategy, once a candidate of the
  order does not fit the budget that remains when the full-block pass stands before
  it, no candidate from it on is fully included, whatever its size: the set of fully
  included indexes is the one reached before it.
\<close>

theorem request_order_stops_at_first_misfit:
  assumes "distinct (pre @ x # post)"
    and "fullPass h RequestOrder candidates pre
           (\<lparr> usedBytes = 0, usedLines = 0, sectionCount = 0 \<rparr>, {||}, 0) = Inr (state, included, count)"
    and "x < length candidates"
    and "\<not> canFitSection h state (c_fullMetrics (candidates ! x))"
  shows "\<exists>plan. buildPlan h RequestOrder (pre @ x # post) candidates = Inr plan
           \<and> plan_fullIncluded plan = included
           \<and> (\<forall>y \<in> set (x # post). y |\<notin>| plan_fullIncluded plan)"
proof -
  from fullPass_request_stop[OF assms(2,3,4)]
  have "fullPass h RequestOrder candidates (pre @ x # post)
           (\<lparr> usedBytes = 0, usedLines = 0, sectionCount = 0 \<rparr>, {||}, 0) = Inr (state, included, count)" .
  from buildPlan_fullIncluded[OF this] obtain plan where
    plan: "buildPlan h RequestOrder (pre @ x # post) candidates = Inr plan"
      "plan_fullIncluded plan = included" by blast
  from fullPass_included_subset[OF assms(2)] have "fset included \<subseteq> set pre" by simp
  moreover from assms(1) have "set pre \<inter> set (x # post) = {}" by auto
  ultimately have "\<forall>y \<in> set (x # post). y |\<notin>| included" by blast
  with plan show ?thesis by blast
qed

theorem request_order_stops_at_first_misfit_witness:
  "\<exists>plan. buildPlan exampleHost RequestOrder [0, 1, 2]
             [makeCandidate (js ''/a'') (js ''small-a'') True 0 None,
              makeCandidate (js ''/b'') (replicate 51328 0x48) True 1 None,
              makeCandidate (js ''/c'') (js ''small-c'') True 2 None] = Inr plan
         \<and> plan_fullIncluded plan = {|0|}
         \<and> 1 |\<notin>| plan_fullIncluded plan \<and> 2 |\<notin>| plan_fullIncluded plan"
proof -
  let ?cs = "[makeCandidate (js ''/a'') (js ''small-a'') True 0 None,
              makeCandidate (js ''/b'') (replicate 51328 0x48) True 1 None,
              makeCandidate (js ''/c'') (js ''small-c'') True 2 None]"
  have small: "measureText (js ''small-a'') = \<lparr> bytes = 7, lines = 1 \<rparr>"
    by (rule trans[OF measureText_ascii_line]) (simp_all add: js_def)
  have huge: "measureText (replicate 51328 0x48) = \<lparr> bytes = 51328, lines = 1 \<rparr>"
    by (rule trans[OF measureText_ascii_line]) simp_all
  have pre: "fullPass exampleHost RequestOrder ?cs [0]
               (\<lparr> usedBytes = 0, usedLines = 0, sectionCount = 0 \<rparr>, {||}, 0)
             = Inr (\<lparr> usedBytes = 7, usedLines = 1, sectionCount = 1 \<rparr>, {|0|}, 1)"
    by (simp add: makeCandidate_def small canFitSection_def addSection_def exampleHost_def)
  have misfit: "\<not> canFitSection exampleHost \<lparr> usedBytes = 7, usedLines = 1, sectionCount = 1 \<rparr>
                    (c_fullMetrics (?cs ! 1))"
    by (simp add: makeCandidate_def huge canFitSection_def exampleHost_def)
  from request_order_stops_at_first_misfit[of "[0]" 1 "[2]" exampleHost ?cs, OF _ pre _ misfit]
  show ?thesis by simp
qed

section \<open>The partial pass\<close>

lemma partialAttempts_fits:
  "partialAttempts h c body rl rb ml mb a = Some t
   \<Longrightarrow> lines (measureText t) \<le> rl \<and> bytes (measureText t) \<le> rb \<and> t \<noteq> []"
proof (induction h c body rl rb ml mb a rule: partialAttempts.induct)
  case (1 h c body rl rb ml mb a)
  let ?trunc = "truncateHead h body ml mb"
  let ?text = "formatContentBlock (c_path c) (tr_content ?trunc) (c_index c + 1)"
  let ?m = "measureText ?text"
  let ?ml' = "if lines ?m > rl \<and> ml > 1 then max 1 (ml - (lines ?m - rl)) else ml"
  let ?mb' = "if bytes ?m > rb \<and> mb > 1 then max 1 (mb - (bytes ?m - rb) - 8) else mb"
  have unf: "partialAttempts h c body rl rb ml mb a =
      (if a < 16 then
         (if tr_content ?trunc = [] then None
          else if lines ?m \<le> rl \<and> bytes ?m \<le> rb then Some ?text
          else partialAttempts h c body rl rb ?ml' ?mb' (a + 1))
       else None)"
    by (subst partialAttempts.simps) (simp only: Let_def)
  have ne: "?text \<noteq> []" by (simp add: formatContentBlock_def Let_def js_def)
  show ?case
  proof (cases "a < 16 \<and> tr_content ?trunc \<noteq> []")
    case False
    with "1.prems" unf show ?thesis by (auto split: if_splits)
  next
    case True
    then have a16: "a < 16" and cne: "tr_content ?trunc \<noteq> []" by simp_all
    show ?thesis
    proof (cases "lines ?m \<le> rl \<and> bytes ?m \<le> rb")
      case fits: True
      have "partialAttempts h c body rl rb ml mb a = Some ?text"
        by (subst unf) (simp only: a16 cne fits if_True if_False simp_thms)
      with "1.prems" have "t = ?text" by simp
      with fits ne show ?thesis by simp
    next
      case nofit: False
      have "partialAttempts h c body rl rb ml mb a = partialAttempts h c body rl rb ?ml' ?mb' (a + 1)"
        by (subst unf) (simp only: a16 cne nofit if_True if_False simp_thms)
      with "1.prems" have rec: "partialAttempts h c body rl rb ?ml' ?mb' (a + 1) = Some t" by simp
      show ?thesis
        by (rule "1.IH"[OF a16 refl cne refl refl nofit refl refl rec])
    qed
  qed
qed

lemma buildPartialSection_fits:
  "buildPartialSection h c rl rb = Some t
   \<Longrightarrow> lines (measureText t) \<le> rl \<and> bytes (measureText t) \<le> rb \<and> t \<noteq> []"
  by (auto simp: buildPartialSection_def Let_def split: option.splits if_splits dest: partialAttempts_fits)

lemma partialPass_result:
  "partialPass h cs inc st i = (ps, st') \<Longrightarrow>
   (case ps of
      None \<Rightarrow> st' = st
    | Some sec \<Rightarrow>
        i \<le> s_index sec \<and> s_index sec < length cs \<and> s_index sec |\<notin>| inc
        \<and> s_metrics sec = measureText (s_text sec) \<and> s_text sec \<noteq> []
        \<and> bytes (s_metrics sec) \<le> DEFAULT_MAX_BYTES h - usedBytes st - (if sectionCount st > 0 then 2 else 0)
        \<and> lines (s_metrics sec) \<le> DEFAULT_MAX_LINES h - usedLines st - (if sectionCount st > 0 then 1 else 0)
        \<and> st' = addSection st (s_metrics sec))"
proof (induction h cs inc st i rule: partialPass.induct)
  case (1 h cs inc st i)
  let ?rb = "DEFAULT_MAX_BYTES h - usedBytes st - (if sectionCount st > 0 then 2 else 0)"
  let ?rl = "DEFAULT_MAX_LINES h - usedLines st - (if sectionCount st > 0 then 1 else 0)"
  note unf = partialPass.simps[of h cs inc st i]
  show ?case
  proof (cases "i < length cs")
    case False
    with "1.prems" unf show ?thesis by simp
  next
    case inrange: True
    show ?thesis
    proof (cases "i |\<in>| inc")
      case True
      with inrange "1.prems" unf have "partialPass h cs inc st (i + 1) = (ps, st')" by simp
      from "1.IH"(1)[OF inrange True this] show ?thesis by (auto split: option.splits)
    next
      case notinc: False
      show ?thesis
      proof (cases "?rb \<le> 0 \<or> ?rl \<le> 0")
        case True
        with inrange notinc "1.prems" unf show ?thesis by (auto simp: Let_def)
      next
        case room: False
        show ?thesis
        proof (cases "buildPartialSection h (cs ! i) ?rl ?rb")
          case None
          with inrange notinc room "1.prems" unf have rec: "partialPass h cs inc st (i + 1) = (ps, st')"
            by (simp add: Let_def)
          from room have r: "\<not> (?rb \<le> 0 \<or> ?rl \<le> 0)" .
          from "1.IH"(2)[OF inrange notinc refl refl refl refl r None rec] show ?thesis
            by (auto split: option.splits)
        next
          case (Some t)
          from buildPartialSection_fits[OF Some] have fits: "lines (measureText t) \<le> ?rl" "bytes (measureText t) \<le> ?rb" "t \<noteq> []"
            by simp_all
          with Some inrange notinc room "1.prems" unf
          have "ps = Some \<lparr> s_index = i, s_text = t, s_metrics = measureText t \<rparr>" "st' = addSection st (measureText t)"
            by (simp_all add: Let_def)
          with fits inrange notinc show ?thesis by simp
        qed
      qed
    qed
  qed
qed

lemma filter_at_most_one:
  "distinct xs \<Longrightarrow> (\<And>i. i \<in> set xs \<Longrightarrow> P i \<Longrightarrow> i = k) \<Longrightarrow> length (filter P xs) \<le> 1"
proof -
  assume d: "distinct xs" and k: "\<And>i. i \<in> set xs \<Longrightarrow> P i \<Longrightarrow> i = k"
  have "distinct (filter P xs)" using d by simp
  moreover have "set (filter P xs) \<subseteq> {k}" using k by auto
  ultimately have "length (filter P xs) = card (set (filter P xs))"
    and "card (set (filter P xs)) \<le> card {k}"
    by (metis distinct_card, metis card_mono finite.emptyI finite.insertI)
  then show ?thesis by simp
qed

text \<open>
  Claim C5. A plan of \<^verbatim>\<open>buildPlan\<close> has at most one partial section: at most one
  index outside the fully included ones renders a section. When the partial section
  exists, its metrics are those of its text, and its bytes and lines do not exceed the
  bytes and lines that remain, after the separator, in the state the full-block pass
  ended in.
\<close>

theorem buildPlan_partial_section:
  assumes "buildPlan h strategy order candidates = Inr plan"
  shows "\<exists>state included count.
           fullPass h strategy candidates order
             (\<lparr> usedBytes = 0, usedLines = 0, sectionCount = 0 \<rparr>, {||}, 0) = Inr (state, included, count)
         \<and> (case plan_partialSection plan of
               None \<Rightarrow> plan_sectionCount plan = sectionCount state
             | Some sec \<Rightarrow>
                 s_metrics sec = measureText (s_text sec)
               \<and> bytes (measureText (s_text sec))
                   \<le> DEFAULT_MAX_BYTES h - usedBytes state - (if sectionCount state > 0 then 2 else 0)
               \<and> lines (measureText (s_text sec))
                   \<le> DEFAULT_MAX_LINES h - usedLines state - (if sectionCount state > 0 then 1 else 0)
               \<and> plan_sectionCount plan = sectionCount state + 1
               \<and> s_index sec < length candidates
               \<and> s_index sec |\<notin>| plan_fullIncluded plan)
         \<and> length (filter (\<lambda>i. i |\<notin>| plan_fullIncluded plan \<and> sectionAt plan candidates i \<noteq> [])
                      [0..<length candidates]) \<le> 1"
proof -
  let ?init = "(\<lparr> usedBytes = 0, usedLines = 0, sectionCount = 0 \<rparr>, {||}, 0 :: nat)"
  from assms obtain state included count where
    fp: "fullPass h strategy candidates order ?init = Inr (state, included, count)"
    by (auto simp: buildPlan_def split: sum.splits)
  obtain ps st' where pp: "partialPass h candidates included state 0 = (ps, st')"
    by (cases "partialPass h candidates included state 0") auto
  from assms fp pp have plan:
    "plan_fullIncluded plan = included" "plan_partialSection plan = ps"
    "plan_sectionCount plan = sectionCount st'"
    by (auto simp: buildPlan_def)
  note res = partialPass_result[OF pp]
  have part: "case plan_partialSection plan of
               None \<Rightarrow> plan_sectionCount plan = sectionCount state
             | Some sec \<Rightarrow>
                 s_metrics sec = measureText (s_text sec)
               \<and> bytes (measureText (s_text sec))
                   \<le> DEFAULT_MAX_BYTES h - usedBytes state - (if sectionCount state > 0 then 2 else 0)
               \<and> lines (measureText (s_text sec))
                   \<le> DEFAULT_MAX_LINES h - usedLines state - (if sectionCount state > 0 then 1 else 0)
               \<and> plan_sectionCount plan = sectionCount state + 1
               \<and> s_index sec < length candidates
               \<and> s_index sec |\<notin>| plan_fullIncluded plan"
  proof (cases ps)
    case None
    with res plan show ?thesis by simp
  next
    case (Some sec)
    with res plan show ?thesis by (auto simp: addSection_def Let_def)
  qed
  have one: "length (filter (\<lambda>i. i |\<notin>| plan_fullIncluded plan \<and> sectionAt plan candidates i \<noteq> [])
                      [0..<length candidates]) \<le> 1"
  proof (rule filter_at_most_one[where k = "case ps of None \<Rightarrow> 0 | Some sec \<Rightarrow> s_index sec"])
    show "distinct [0..<length candidates]" by simp
  next
    fix i assume "i \<in> set [0..<length candidates]"
      and "i |\<notin>| plan_fullIncluded plan \<and> sectionAt plan candidates i \<noteq> []"
    then show "i = (case ps of None \<Rightarrow> 0 | Some sec \<Rightarrow> s_index sec)"
      using plan(2) by (auto simp: sectionAt_def split: option.splits if_splits)
  qed
  from fp part one show ?thesis by blast
qed

theorem buildPlan_partial_section_witness:
  "\<exists>plan sec.
      buildPlan smallHost RequestOrder [0]
        [makeCandidate (js ''/a'')
           (js ''0\<newline>1\<newline>2\<newline>3\<newline>4\<newline>5\<newline>6'')
           True 0 (Some (js ''a\<newline>b\<newline>c\<newline>d''))] = Inr plan
    \<and> plan_partialSection plan = Some sec
    \<and> s_text sec = formatContentBlock (js ''/a'') (js ''a'') 1
    \<and> bytes (measureText (s_text sec)) \<le> 64 \<and> lines (measureText (s_text sec)) \<le> 6
    \<and> plan_sectionCount plan = 1"
proof -
  let ?full = "js ''0\<newline>1\<newline>2\<newline>3\<newline>4\<newline>5\<newline>6''"
  let ?body = "js ''a\<newline>b\<newline>c\<newline>d''"
  let ?c = "makeCandidate (js ''/a'') ?full True 0 (Some ?body)"
  let ?t = "formatContentBlock (js ''/a'') (js ''a'') (Suc 0)"
  let ?init = "\<lparr> usedBytes = 0, usedLines = 0, sectionCount = 0 \<rparr>"
  have full: "measureText ?full = \<lparr> bytes = 13, lines = 7 \<rparr>"
    by (simp add: measureText_def js_def unitBytes_def isHighSurrogate_def)
  have fp: "fullPass smallHost RequestOrder [?c] [0] (?init, {||}, 0) = Inr (?init, {||}, 0)"
    by (simp add: makeCandidate_def full canFitSection_def smallHost_def exampleHost_def)
  have tr: "truncateHead smallHost ?body 3 1 = \<lparr> tr_content = js ''a'', tr_truncated = True \<rparr>"
    by (simp add: smallHost_def exampleHost_def exampleTruncateHead_def js_def unitBytes_def isHighSurrogate_def Let_def)
  have pa: "partialAttempts smallHost ?c ?body 6 64 3 1 0 = Some ?t"
    by (subst partialAttempts.simps) (simp add: tr Let_def makeCandidate_def block_a_metrics js_Nil_iff)
  have bps: "buildPartialSection smallHost ?c 6 64 = Some ?t"
    using pa by (simp add: buildPartialSection_def makeCandidate_def Let_def js_Nil_iff)
  have hb: "DEFAULT_MAX_BYTES smallHost = 64" "DEFAULT_MAX_LINES smallHost = 6"
    by (simp_all add: smallHost_def exampleHost_def)
  have ne: "?t \<noteq> []" unfolding block_a by (simp add: js_Nil_iff)
  have pp: "partialPass smallHost [?c] {||} ?init 0
            = (Some \<lparr> s_index = 0, s_text = ?t, s_metrics = measureText ?t \<rparr>, addSection ?init (measureText ?t))"
    by (subst partialPass.simps) (simp add: Let_def hb bps ne)
  have bp: "buildPlan smallHost RequestOrder [0] [?c] =
      Inr \<lparr> plan_strategy = RequestOrder, plan_fullIncluded = {||},
            plan_partialSection = Some \<lparr> s_index = 0, s_text = ?t, s_metrics = measureText ?t \<rparr>,
            plan_omittedIndexes = [], plan_usedBytes = 37, plan_usedLines = 4,
            plan_sectionCount = 1, plan_fullCount = 0, plan_fullSuccessCount = 0 \<rparr>"
    unfolding buildPlan_def fp by (simp add: pp omitted_def addSection_def block_a_metrics)
  from buildPlan_partial_section[OF bp] show ?thesis
    unfolding bp by (simp add: block_a_metrics)
qed

section \<open>Choosing between the two plans\<close>

lemma fullPass_total:
  "\<forall>i \<in> set order. i < length cs \<Longrightarrow> \<exists>r. fullPass h s cs order acc = Inr r"
proof (induction order arbitrary: acc)
  case Nil
  then show ?case by (cases acc) simp
next
  case (Cons a order)
  obtain st inc cnt where acc: "acc = (st, inc, cnt)" by (cases acc) auto
  from Cons.prems have a: "\<not> length cs \<le> a" and rest: "\<forall>i \<in> set order. i < length cs" by auto
  from Cons.IH[OF rest] a show ?case unfolding acc by (simp add: Let_def)
qed

lemma ffilter_finsert_eq:
  "ffilter P (finsert a A) = (if P a then finsert a (ffilter P A) else ffilter P A)"
  by auto

lemma fullPass_count:
  "fullPass h s cs order (st, inc, cnt) = Inr (st', inc', cnt') \<Longrightarrow> distinct order
   \<Longrightarrow> set order \<inter> fset inc = {}
   \<Longrightarrow> cnt = fcard (ffilter (\<lambda>i. c_ok (cs ! i)) inc)
   \<Longrightarrow> cnt' = fcard (ffilter (\<lambda>i. c_ok (cs ! i)) inc')"
proof (induction order arbitrary: st inc cnt)
  case Nil
  then show ?case by auto
next
  case (Cons a order)
  from Cons.prems(2,3) have d: "distinct order" and a_new: "a |\<notin>| inc" and disj: "set order \<inter> fset inc = {}"
    and a_rest: "a \<notin> set order" by auto
  show ?case
  proof (cases "length cs \<le> a")
    case True
    with Cons.prems(1) show ?thesis by simp
  next
    case False
    show ?thesis
    proof (cases "canFitSection h st (c_fullMetrics (cs ! a))")
      case True
      with False Cons.prems(1) have rec:
        "fullPass h s cs order (addSection st (c_fullMetrics (cs ! a)), finsert a inc,
           if c_ok (cs ! a) then cnt + 1 else cnt) = Inr (st', inc', cnt')"
        by (simp add: Let_def)
      have disj': "set order \<inter> fset (finsert a inc) = {}" using disj a_rest by auto
      have cnt': "(if c_ok (cs ! a) then cnt + 1 else cnt) = fcard (ffilter (\<lambda>i. c_ok (cs ! i)) (finsert a inc))"
        using a_new Cons.prems(4) by (simp add: ffilter_finsert_eq fcard_finsert_disjoint)
      from Cons.IH[OF rec d disj' cnt'] show ?thesis .
    next
      case nofit: False
      show ?thesis
      proof (cases "s = RequestOrder")
        case True
        with nofit False Cons.prems(1,4) show ?thesis by (auto simp: Let_def)
      next
        case False2: False
        with nofit False Cons.prems(1) have rec: "fullPass h s cs order (st, inc, cnt) = Inr (st', inc', cnt')"
          by (simp add: Let_def)
        from Cons.IH[OF rec d disj Cons.prems(4)] show ?thesis .
      qed
    qed
  qed
qed

lemma set_insertBy: "set (insertBy cmp x ys) = insert x (set ys)"
  by (induction ys) auto

lemma distinct_insertBy: "distinct (insertBy cmp x ys) \<longleftrightarrow> x \<notin> set ys \<and> distinct ys"
  by (induction ys) (auto simp: set_insertBy)

lemma set_sortBy: "set (sortBy cmp xs) = set xs"
  unfolding sortBy_def by (induction xs) (simp_all add: set_insertBy)

lemma distinct_sortBy: "distinct xs \<Longrightarrow> distinct (sortBy cmp xs)"
  unfolding sortBy_def
proof (induction xs)
  case Nil then show ?case by simp
next
  case (Cons x xs)
  have "set (foldr (insertBy cmp) xs []) = set xs" using set_sortBy[of cmp xs] by (simp add: sortBy_def)
  with Cons show ?case by (simp add: distinct_insertBy)
qed

lemma requestOrder_props:
  "distinct (requestOrder cs)" "set (requestOrder cs) = {0..<length cs}"
  by (simp_all add: requestOrder_def)

lemma smallestFirstOrder_props:
  "distinct (smallestFirstOrder cs)" "set (smallestFirstOrder cs) = {0..<length cs}"
  by (simp_all add: smallestFirstOrder_def distinct_sortBy set_sortBy requestOrder_props)

lemma buildPlan_permutation:
  assumes "distinct order" "set order = {0..<length cs}"
  shows "\<exists>plan. buildPlan h s order cs = Inr plan \<and> plan_strategy plan = s
           \<and> plan_fullSuccessCount plan = fcard (ffilter (\<lambda>i. c_ok (cs ! i)) (plan_fullIncluded plan))"
proof -
  let ?init = "(\<lparr> usedBytes = 0, usedLines = 0, sectionCount = 0 \<rparr>, {||}, 0 :: nat)"
  from assms(2) have "\<forall>i \<in> set order. i < length cs" by simp
  from fullPass_total[OF this] obtain st inc cnt where
    fp: "fullPass h s cs order ?init = Inr (st, inc, cnt)" by (metis prod_cases3)
  have e1: "set order \<inter> fset {||} = {}" by simp
  have "ffilter (\<lambda>i. c_ok (cs ! i)) {||} = {||}" by auto
  then have e2: "(0 :: nat) = fcard (ffilter (\<lambda>i. c_ok (cs ! i)) {||})" by simp
  from fullPass_count[OF fp assms(1) e1 e2] have "cnt = fcard (ffilter (\<lambda>i. c_ok (cs ! i)) inc)" .
  with buildPlan_fullIncluded[OF fp] show ?thesis by auto
qed

text \<open>
  A request whose first file is too large for the budget and carries no body:
  request order includes nothing, smallest-first includes the two small files,
  and the smallest-first plan is selected.
\<close>

lemma partialPass_no_bodies:
  "\<forall>c \<in> set cs. c_body c = None \<Longrightarrow> partialPass h cs inc st i = (None, st)"
proof (induction h cs inc st i rule: partialPass.induct)
  case (1 h cs inc st i)
  note unf = partialPass.simps[of h cs inc st i]
  show ?case
  proof (cases "i < length cs")
    case False
    with unf show ?thesis by simp
  next
    case inrange: True
    with "1.prems" have none: "buildPartialSection h (cs ! i) rl rb = None" for rl rb
      by (simp add: buildPartialSection_def)
    show ?thesis
    proof (cases "i |\<in>| inc")
      case True
      with inrange unf "1.IH"(1)[OF inrange True "1.prems"] show ?thesis by simp
    next
      case notinc: False
      let ?rb = "DEFAULT_MAX_BYTES h - usedBytes st - (if sectionCount st > 0 then 2 else 0)"
      let ?rl = "DEFAULT_MAX_LINES h - usedLines st - (if sectionCount st > 0 then 1 else 0)"
      show ?thesis
      proof (cases "?rb \<le> 0 \<or> ?rl \<le> 0")
        case True
        with inrange notinc unf show ?thesis by (auto simp: Let_def)
      next
        case room: False
        from "1.IH"(2)[OF inrange notinc refl refl refl refl room none "1.prems"]
        have "partialPass h cs inc st (i + 1) = (None, st)" .
        with inrange notinc room unf none show ?thesis by (simp add: Let_def)
      qed
    qed
  qed
qed

lemma selectPlan_switches_example:
  "selectPlan exampleHost
     [makeCandidate (js ''/a'') (replicate 51328 0x48) True 0 None,
      makeCandidate (js ''/b'') (js ''small-b'') True 1 None,
      makeCandidate (js ''/c'') (js ''small-c'') True 2 None]
   = Inr (\<lparr> plan_strategy = SmallestFirst, plan_fullIncluded = {|1, 2|},
            plan_partialSection = None, plan_omittedIndexes = [0],
            plan_usedBytes = 16, plan_usedLines = 3, plan_sectionCount = 2,
            plan_fullCount = 2, plan_fullSuccessCount = 2 \<rparr>, True)"
proof -
  let ?cs = "[makeCandidate (js ''/a'') (replicate 51328 0x48) True 0 None,
      makeCandidate (js ''/b'') (js ''small-b'') True 1 None,
      makeCandidate (js ''/c'') (js ''small-c'') True 2 None]"
  let ?init = "\<lparr> usedBytes = 0, usedLines = 0, sectionCount = 0 \<rparr>"
  have m: "measureText (js ''small-b'') = \<lparr> bytes = 7, lines = 1 \<rparr>"
    "measureText (js ''small-c'') = \<lparr> bytes = 7, lines = 1 \<rparr>"
    "measureText (replicate 51328 0x48) = \<lparr> bytes = 51328, lines = 1 \<rparr>"
    by (rule trans[OF measureText_ascii_line]; simp add: js_def)+
  have o1: "requestOrder ?cs = [0, 1, 2]" by (simp add: requestOrder_def upt_rec)
  have o2: "smallestFirstOrder ?cs = [1, 2, 0]"
    unfolding smallestFirstOrder_def o1
    by (simp add: sortBy_def compareCandidates_def makeCandidate_def m)
  have pp: "partialPass exampleHost ?cs inc st 0 = (None, st)" for inc st
    by (rule partialPass_no_bodies) (simp add: makeCandidate_def)
  have f1: "fullPass exampleHost RequestOrder ?cs [0, 1, 2] (?init, {||}, 0) = Inr (?init, {||}, 0)"
    by (simp add: makeCandidate_def m canFitSection_def exampleHost_def)
  have f2: "fullPass exampleHost SmallestFirst ?cs [1, 2, 0] (?init, {||}, 0)
            = Inr (\<lparr> usedBytes = 16, usedLines = 3, sectionCount = 2 \<rparr>, {|1, 2|}, 2)"
    by (auto simp: makeCandidate_def m canFitSection_def addSection_def exampleHost_def)
  have rp: "buildPlan exampleHost RequestOrder [0, 1, 2] ?cs
     = Inr \<lparr> plan_strategy = RequestOrder, plan_fullIncluded = {||},
            plan_partialSection = None, plan_omittedIndexes = [0, 1, 2],
            plan_usedBytes = 0, plan_usedLines = 0, plan_sectionCount = 0,
            plan_fullCount = 0, plan_fullSuccessCount = 0 \<rparr>"
    unfolding buildPlan_def f1 pp by (simp add: omitted_def upt_rec)
  have card2: "fcard {|Suc 0, 2|} = 2" by (simp add: fcard_finsert_if)
  have sp: "buildPlan exampleHost SmallestFirst [1, 2, 0] ?cs
     = Inr \<lparr> plan_strategy = SmallestFirst, plan_fullIncluded = {|1, 2|},
            plan_partialSection = None, plan_omittedIndexes = [0],
            plan_usedBytes = 16, plan_usedLines = 3, plan_sectionCount = 2,
            plan_fullCount = 2, plan_fullSuccessCount = 2 \<rparr>"
    unfolding buildPlan_def f2 pp by (simp add: omitted_def upt_rec card2)
  show ?thesis
    unfolding selectPlan_def o1 o2 rp sp by simp
qed

text \<open>
  Claim C3. Both plans exist, and each plan's counter \<^verbatim>\<open>fullSuccessCount\<close> is the
  number of its fully included candidates that are successful reads. The orchestrator
  takes the smallest-first plan, and reports the switch, exactly when that number is
  strictly greater for the smallest-first plan; otherwise (a tie or fewer) it keeps
  the request-order plan.
\<close>

theorem switch_iff_more_successful_full_blocks:
  "\<exists>requestPlan smallestPlan.
      buildPlan h RequestOrder (requestOrder candidates) candidates = Inr requestPlan
    \<and> buildPlan h SmallestFirst (smallestFirstOrder candidates) candidates = Inr smallestPlan
    \<and> plan_strategy requestPlan = RequestOrder \<and> plan_strategy smallestPlan = SmallestFirst
    \<and> plan_fullSuccessCount requestPlan
        = fcard (ffilter (\<lambda>i. c_ok (candidates ! i)) (plan_fullIncluded requestPlan))
    \<and> plan_fullSuccessCount smallestPlan
        = fcard (ffilter (\<lambda>i. c_ok (candidates ! i)) (plan_fullIncluded smallestPlan))
    \<and> selectPlan h candidates
        = Inr (if plan_fullSuccessCount smallestPlan > plan_fullSuccessCount requestPlan
               then smallestPlan else requestPlan,
               plan_fullSuccessCount smallestPlan > plan_fullSuccessCount requestPlan)"
proof -
  from buildPlan_permutation[OF requestOrder_props, of h RequestOrder candidates]
  obtain rp where rp: "buildPlan h RequestOrder (requestOrder candidates) candidates = Inr rp"
    "plan_strategy rp = RequestOrder"
    "plan_fullSuccessCount rp = fcard (ffilter (\<lambda>i. c_ok (candidates ! i)) (plan_fullIncluded rp))"
    by blast
  from buildPlan_permutation[OF smallestFirstOrder_props, of h SmallestFirst candidates]
  obtain sp where sp: "buildPlan h SmallestFirst (smallestFirstOrder candidates) candidates = Inr sp"
    "plan_strategy sp = SmallestFirst"
    "plan_fullSuccessCount sp = fcard (ffilter (\<lambda>i. c_ok (candidates ! i)) (plan_fullIncluded sp))"
    by blast
  have "selectPlan h candidates
        = Inr (if plan_fullSuccessCount sp > plan_fullSuccessCount rp then sp else rp,
               plan_fullSuccessCount sp > plan_fullSuccessCount rp)"
    by (simp add: selectPlan_def rp(1) sp(1) Let_def)
  with rp sp show ?thesis by blast
qed

section \<open>The read loop\<close>

lemma readLoop_stops_at_first_failure:
  assumes "k < length requests"
    and "readTool k (requests ! k) = Inl message"
    and "\<forall>i<k. \<exists>items. readTool i (requests ! i) = Inr items"
    and "\<forall>i\<le>k. \<not> aborted i"
  shows "start \<le> k \<Longrightarrow>
         \<exists>st'. readLoop readTool aborted True requests start st = Inr st'
           \<and> rs_reads st' = rs_reads st @ [start..<Suc k]
           \<and> length (rs_fileDetails st') = length (rs_fileDetails st) + (Suc k - start)
           \<and> length (rs_candidates st') = length (rs_candidates st) + (Suc k - start)
           \<and> length (filter d_ok (rs_fileDetails st')) = length (filter d_ok (rs_fileDetails st)) + (k - start)"
proof (induction "k - start" arbitrary: start st)
  case 0
  then have eq: "start = k" by simp
  show ?case
    unfolding eq
    by (subst readLoop.simps) (use assms in \<open>simp add: Let_def\<close>)
next
  case (Suc n)
  then have lt: "start < k" and n: "n = k - Suc start" by simp_all
  from lt assms(1) have inr: "start < length requests" by simp
  from lt assms(3) obtain items where items: "readTool start (requests ! start) = Inr items" by blast
  from lt assms(4) have na: "\<not> aborted start" by simp
  let ?body = "successBody items"
  let ?text = "formatContentBlock (r_path (requests ! start)) ?body (start + 1)"
  let ?st = "\<lparr> rs_candidates = rs_candidates st @
                [\<lparr> c_index = start, c_path = r_path (requests ! start), c_ok = True,
                   c_fullText = ?text, c_fullMetrics = measureText ?text, c_body = Some ?body \<rparr>],
              rs_fileDetails = rs_fileDetails st @
                [\<lparr> d_path = r_path (requests ! start), d_ok = True, d_error = None,
                   d_imageCount = Some (length (filter isImage items)) \<rparr>],
              rs_reads = rs_reads st @ [start] \<rparr>"
  have step: "readLoop readTool aborted True requests start st
              = readLoop readTool aborted True requests (start + 1) ?st"
    by (subst readLoop.simps) (simp add: inr na items Let_def)
  from lt have le: "Suc start \<le> k" by simp
  from Suc.hyps(1)[OF n le, of ?st] obtain st' where
    st': "readLoop readTool aborted True requests (Suc start) ?st = Inr st'"
      "rs_reads st' = rs_reads ?st @ [Suc start..<Suc k]"
      "length (rs_fileDetails st') = length (rs_fileDetails ?st) + (Suc k - Suc start)"
      "length (rs_candidates st') = length (rs_candidates ?st) + (Suc k - Suc start)"
      "length (filter d_ok (rs_fileDetails st')) = length (filter d_ok (rs_fileDetails ?st)) + (k - Suc start)"
    by blast
  have "[start..<Suc k] = start # [Suc start..<Suc k]" using lt by (simp add: upt_conv_Cons)
  with st' step lt show ?case by auto
qed

lemma selectPlan_total: "\<exists>plan switched. selectPlan h cs = Inr (plan, switched)"
proof -
  from buildPlan_permutation[OF requestOrder_props, of h RequestOrder cs]
  obtain rp where rp: "buildPlan h RequestOrder (requestOrder cs) cs = Inr rp" by blast
  from buildPlan_permutation[OF smallestFirstOrder_props, of h SmallestFirst cs]
  obtain sp where sp: "buildPlan h SmallestFirst (smallestFirstOrder cs) cs = Inr sp" by blast
  show ?thesis by (simp add: selectPlan_def rp sp Let_def)
qed

text \<open>
  Claim C8. With \<^verbatim>\<open>stopOnError\<close> set, let \<open>k\<close> be the (0-based) index of the first
  request whose read fails, the operation not being cancelled up to there. Then
  \<^verbatim>\<open>execute\<close> returns; the read tool was invoked on the requests \<open>0, ..., k\<close> and on no
  later one; and the processed count is \<open>k + 1\<close>, the 1-based index of the failing
  file (of which \<open>k\<close> are successes and one is the error).
\<close>

theorem stopOnError_halts_at_first_failure:
  assumes "k < length requests"
    and "readTool k (requests ! k) = Inl message"
    and "\<forall>i<k. \<exists>items. readTool i (requests ! i) = Inr items"
    and "\<forall>i\<le>k. \<not> aborted i"
  shows "\<exists>r. execute h readTool aborted requests True = Inr r
           \<and> reads r = [0..<Suc k]
           \<and> processedCount (details r) = k + 1
           \<and> length (files (details r)) = k + 1
           \<and> successCount (details r) = k
           \<and> errorCount (details r) = 1"
proof -
  let ?init = "\<lparr> rs_candidates = [], rs_fileDetails = [], rs_reads = [] \<rparr>"
  have "(0::nat) \<le> k" by simp
  from readLoop_stops_at_first_failure[of k requests readTool message aborted 0 ?init,
      OF assms this] obtain st where
    st: "readLoop readTool aborted True requests 0 ?init = Inr st"
      "rs_reads st = [0..<Suc k]"
      "length (rs_fileDetails st) = Suc k"
      "length (filter d_ok (rs_fileDetails st)) = k"
    by auto
  from selectPlan_total[of h "rs_candidates st"] obtain plan switched where
    sel: "selectPlan h (rs_candidates st) = Inr (plan, switched)" by blast
  have "length (filter (\<lambda>f. \<not> d_ok f) (rs_fileDetails st)) = 1"
    using st(3,4) sum_length_filter_compl[of d_ok "rs_fileDetails st"] by simp
  with st sel show ?thesis
    by (simp add: execute_def Let_def)
qed

theorem stopOnError_halts_at_first_failure_witness:
  "\<exists>r. execute exampleHost
          (\<lambda>i request. if r_path request = js ''/bad'' then Inl (js ''boom'')
                        else Inr [TextItem (js ''ok'')])
          (\<lambda>i. False)
          [\<lparr> r_path = js ''/bad'', r_offset = None, r_limit = None \<rparr>,
           \<lparr> r_path = js ''/good'', r_offset = None, r_limit = None \<rparr>]
          True = Inr r
       \<and> reads r = [0] \<and> processedCount (details r) = 1
       \<and> length (files (details r)) = 1
       \<and> successCount (details r) = 0 \<and> errorCount (details r) = 1"
  using stopOnError_halts_at_first_failure[of 0
      "[\<lparr> r_path = js ''/bad'', r_offset = None, r_limit = None \<rparr>,
        \<lparr> r_path = js ''/good'', r_offset = None, r_limit = None \<rparr>]"
      "\<lambda>i request. if r_path request = js ''/bad'' then Inl (js ''boom'')
                        else Inr [TextItem (js ''ok'')]"
      "js ''boom''" "\<lambda>i. False" exampleHost]
  by simp

section \<open>Rendering\<close>

lemma join_around:
  "join sep (A @ x # R) =
     (if A = [] then [] else join sep A @ sep) @ x @ (if R = [] then [] else sep @ join sep R)"
proof (induction sep A rule: join.induct)
  case (1 sep)
  show ?case by (cases R) simp_all
next
  case (2 sep a)
  show ?case by (cases R) simp_all
next
  case (3 sep a b bs)
  then show ?case by simp
qed

lemma sectionAt_length: "length (sectionAt plan cs i) \<le> 1"
  by (simp add: sectionAt_def split: option.splits)

lemma concat_map_singletons:
  "(\<And>x. x \<in> set xs \<Longrightarrow> length (f x) \<le> 1)
   \<Longrightarrow> concat (map f xs) = map (\<lambda>x. hd (f x)) (filter (\<lambda>x. f x \<noteq> []) xs)"
proof (induction xs)
  case Nil
  then show ?case by simp
next
  case (Cons x xs)
  from Cons.prems[of x] have "f x = [] \<or> f x = [hd (f x)]"
    by (cases "f x") auto
  with Cons show ?case by auto
qed

text \<open>
  Claim C6. For every plan (so for whichever strategy wins) the rendered sections are
  those of the included indexes in increasing index order. For included indexes
  \<open>i < j\<close>, the section of file \<open>i\<close> comes before the section of file \<open>j\<close> in the
  list of sections and in the assembled text.
\<close>

theorem sections_rendered_in_request_order:
  assumes "i < j" and "j < length candidates"
    and "sectionAt plan candidates i = [ti]" and "sectionAt plan candidates j = [tj]"
  shows "renderSections plan candidates
           = map (\<lambda>k. hd (sectionAt plan candidates k))
               (filter (\<lambda>k. sectionAt plan candidates k \<noteq> []) [0..<length candidates])
       \<and> renderSections plan candidates
           = concat (map (sectionAt plan candidates) [0..<i]) @ ti
             # concat (map (sectionAt plan candidates) [Suc i..<j]) @ tj
             # concat (map (sectionAt plan candidates) [Suc j..<length candidates])
       \<and> (\<exists>pre mid post. plannedOutputText plan candidates = pre @ ti @ mid @ tj @ post)"
proof -
  let ?f = "sectionAt plan candidates"
  let ?A = "concat (map ?f [0..<i])"
  let ?B = "concat (map ?f [Suc i..<j])"
  let ?C = "concat (map ?f [Suc j..<length candidates])"
  have first: "renderSections plan candidates
           = map (\<lambda>k. hd (?f k)) (filter (\<lambda>k. ?f k \<noteq> []) [0..<length candidates])"
    unfolding renderSections_def by (rule concat_map_singletons) (rule sectionAt_length)
  have "[0..<length candidates] = [0..<i] @ i # [Suc i..<j] @ j # [Suc j..<length candidates]"
  proof -
    have split_at: "[a..<n] = [a..<b] @ b # [Suc b..<n]" if "a \<le> b" "b < n" for a b n :: nat
    proof -
      from that have "[a..<n] = [a..<b] @ [b..<n]"
        using upt_add_eq_append[of a b "n - b"] by simp
      with that show ?thesis by (simp add: upt_conv_Cons)
    qed
    from assms(1,2) have "[0..<length candidates] = [0..<i] @ i # [Suc i..<length candidates]"
      by (intro split_at) simp_all
    moreover from assms(1,2) have "[Suc i..<length candidates] = [Suc i..<j] @ j # [Suc j..<length candidates]"
      by (intro split_at) simp_all
    ultimately show ?thesis by simp
  qed
  then have "renderSections plan candidates = concat (map ?f ([0..<i] @ i # [Suc i..<j] @ j # [Suc j..<length candidates]))"
    by (simp only: renderSections_def)
  then have second: "renderSections plan candidates = ?A @ ti # ?B @ tj # ?C"
    using assms(3,4) by simp
  have "plannedOutputText plan candidates = join [LF, LF] (?A @ ti # (?B @ tj # ?C))"
    by (simp add: plannedOutputText_def second)
  also have "\<dots> = (if ?A = [] then [] else join [LF, LF] ?A @ [LF, LF]) @ ti @ ([LF, LF] @ join [LF, LF] (?B @ tj # ?C))"
    by (subst join_around) simp
  also have "join [LF, LF] (?B @ tj # ?C)
      = (if ?B = [] then [] else join [LF, LF] ?B @ [LF, LF]) @ tj @ (if ?C = [] then [] else [LF, LF] @ join [LF, LF] ?C)"
    by (rule join_around)
  finally have "plannedOutputText plan candidates
      = (if ?A = [] then [] else join [LF, LF] ?A @ [LF, LF]) @ ti
        @ ([LF, LF] @ (if ?B = [] then [] else join [LF, LF] ?B @ [LF, LF])) @ tj
        @ (if ?C = [] then [] else [LF, LF] @ join [LF, LF] ?C)"
    by simp
  then have third: "\<exists>pre mid post. plannedOutputText plan candidates = pre @ ti @ mid @ tj @ post"
    by blast
  from first second third show ?thesis by blast
qed

theorem sections_rendered_in_request_order_witness:
  "\<exists>pre mid post.
     plannedOutputText
       \<lparr> plan_strategy = SmallestFirst, plan_fullIncluded = {|1, 2|},
         plan_partialSection = Some \<lparr> s_index = 0, s_text = js ''part-a'',
                                      s_metrics = measureText (js ''part-a'') \<rparr>,
         plan_omittedIndexes = [], plan_usedBytes = 28, plan_usedLines = 5,
         plan_sectionCount = 3, plan_fullCount = 2, plan_fullSuccessCount = 2 \<rparr>
       [makeCandidate (js ''/a'') (js ''full-a'') True 0 (Some (js ''a'')),
        makeCandidate (js ''/b'') (js ''small-b'') True 1 (Some (js ''b'')),
        makeCandidate (js ''/c'') (js ''small-c'') True 2 (Some (js ''c''))]
     = pre @ js ''part-a'' @ mid @ js ''small-c'' @ post"
proof -
  let ?plan = "\<lparr> plan_strategy = SmallestFirst, plan_fullIncluded = {|1, 2|},
         plan_partialSection = Some \<lparr> s_index = 0, s_text = js ''part-a'',
                                      s_metrics = measureText (js ''part-a'') \<rparr>,
         plan_omittedIndexes = [], plan_usedBytes = 28, plan_usedLines = 5,
         plan_sectionCount = 3, plan_fullCount = 2, plan_fullSuccessCount = 2 \<rparr>"
  let ?cs = "[makeCandidate (js ''/a'') (js ''full-a'') True 0 (Some (js ''a'')),
        makeCandidate (js ''/b'') (js ''small-b'') True 1 (Some (js ''b'')),
        makeCandidate (js ''/c'') (js ''small-c'') True 2 (Some (js ''c''))]"
  have a: "sectionAt ?plan ?cs 0 = [js ''part-a'']" by (simp add: sectionAt_def)
  have c: "sectionAt ?plan ?cs 2 = [js ''small-c'']" by (simp add: sectionAt_def makeCandidate_def)
  from sections_rendered_in_request_order[of 0 2 ?cs ?plan, OF _ _ a c] show ?thesis by simp
qed

section \<open>The accounting of the planner\<close>

lemma not_surrogate_LF: "\<not> isHighSurrogate LF" "\<not> isLowSurrogate LF"
  by (simp_all add: isHighSurrogate_def isLowSurrogate_def)

lemma byteLength_LF_Cons: "byteLength (LF # b) = 1 + byteLength b"
  by (cases b) (simp_all add: not_surrogate_LF unitBytes_def)

lemma byteLength_append_LF: "byteLength (a @ LF # b) = byteLength a + 1 + byteLength b"
proof (induction a rule: byteLength.induct)
  case 1
  show ?case by (simp add: byteLength_LF_Cons)
next
  case (2 c)
  show ?case by (simp add: not_surrogate_LF byteLength_LF_Cons)
next
  case (3 c d cs)
  then show ?case by simp
qed

lemma measureText_append_LF:
  "bytes (measureText (a @ LF # b)) = bytes (measureText a) + 1 + bytes (measureText b)"
  "lines (measureText (a @ LF # b)) = lines (measureText a) + lines (measureText b)"
  by (simp_all add: measureText_def byteLength_append_LF split_lines_append_LF)

lemma measureText_Nil: "measureText [] = \<lparr> bytes = 0, lines = 1 \<rparr>"
  by (simp add: measureText_def)

lemma measureText_join:
  "S \<noteq> [] \<Longrightarrow>
     bytes (measureText (join [LF, LF] S))
       = sum_list (map (\<lambda>t. bytes (measureText t)) S) + 2 * (int (length S) - 1)
   \<and> lines (measureText (join [LF, LF] S))
       = sum_list (map (\<lambda>t. lines (measureText t)) S) + (int (length S) - 1)"
proof (induction "[LF, LF] :: jsstring" S rule: join.induct)
  case 1
  then show ?case by simp
next
  case (2 x)
  show ?case by simp
next
  case (3 x y ys)
  have "join [LF, LF] (x # y # ys) = x @ LF # ([] @ LF # join [LF, LF] (y # ys))" by simp
  then have
    "bytes (measureText (join [LF, LF] (x # y # ys)))
       = bytes (measureText x) + 2 + bytes (measureText (join [LF, LF] (y # ys)))"
    "lines (measureText (join [LF, LF] (x # y # ys)))
       = lines (measureText x) + 1 + lines (measureText (join [LF, LF] (y # ys)))"
    by (simp_all only: measureText_append_LF measureText_Nil TextMetrics.simps)
  with 3 show ?case by simp
qed

lemma foldl_addSection:
  "sectionCount (foldl addSection \<lparr> usedBytes = 0, usedLines = 0, sectionCount = 0 \<rparr> ms) = length ms
   \<and> usedBytes (foldl addSection \<lparr> usedBytes = 0, usedLines = 0, sectionCount = 0 \<rparr> ms)
       = sum_list (map bytes ms) + (if ms = [] then 0 else 2 * (int (length ms) - 1))
   \<and> usedLines (foldl addSection \<lparr> usedBytes = 0, usedLines = 0, sectionCount = 0 \<rparr> ms)
       = sum_list (map lines ms) + (if ms = [] then 0 else int (length ms) - 1)"
proof (induction ms rule: rev_induct)
  case Nil
  show ?case by simp
next
  case (snoc m ms)
  then show ?case by (auto simp: addSection_def Let_def)
qed

lemma accounting_exact:
  assumes "distinct A" and "distinct R" and "set R = set A" and "A \<noteq> []"
    and "\<forall>k \<in> set A. measureText (tx k) = mm k"
  shows "measureText (join [LF, LF] (map tx R))
         = \<lparr> bytes = usedBytes (foldl addSection \<lparr> usedBytes = 0, usedLines = 0, sectionCount = 0 \<rparr> (map mm A)),
             lines = usedLines (foldl addSection \<lparr> usedBytes = 0, usedLines = 0, sectionCount = 0 \<rparr> (map mm A)) \<rparr>"
proof -
  from assms(1,2,3) have len: "length R = length A" by (metis distinct_card)
  from assms(3,4) have ne: "map tx R \<noteq> []" by auto
  have b: "sum_list (map (\<lambda>t. bytes (measureText t)) (map tx R)) = sum_list (map bytes (map mm A))"
  proof -
    have "sum_list (map (\<lambda>t. bytes (measureText t)) (map tx R)) = sum_list (map (\<lambda>k. bytes (mm k)) R)"
    proof (rule arg_cong[where f = sum_list])
      from assms(3,5) have "\<forall>k \<in> set R. measureText (tx k) = mm k" by simp
      then show "map (\<lambda>t. bytes (measureText t)) (map tx R) = map (\<lambda>k. bytes (mm k)) R" by simp
    qed
    also have "\<dots> = sum (\<lambda>k. bytes (mm k)) (set R)" using assms(2) by (rule sum_list_distinct_conv_sum_set)
    also have "\<dots> = sum (\<lambda>k. bytes (mm k)) (set A)" using assms(3) by simp
    also have "\<dots> = sum_list (map (\<lambda>k. bytes (mm k)) A)" using assms(1) by (rule sum_list_distinct_conv_sum_set[symmetric])
    finally show ?thesis by (simp add: comp_def)
  qed
  have l: "sum_list (map (\<lambda>t. lines (measureText t)) (map tx R)) = sum_list (map lines (map mm A))"
  proof -
    have "sum_list (map (\<lambda>t. lines (measureText t)) (map tx R)) = sum_list (map (\<lambda>k. lines (mm k)) R)"
    proof (rule arg_cong[where f = sum_list])
      from assms(3,5) have "\<forall>k \<in> set R. measureText (tx k) = mm k" by simp
      then show "map (\<lambda>t. lines (measureText t)) (map tx R) = map (\<lambda>k. lines (mm k)) R" by simp
    qed
    also have "\<dots> = sum (\<lambda>k. lines (mm k)) (set R)" using assms(2) by (rule sum_list_distinct_conv_sum_set)
    also have "\<dots> = sum (\<lambda>k. lines (mm k)) (set A)" using assms(3) by simp
    also have "\<dots> = sum_list (map (\<lambda>k. lines (mm k)) A)" using assms(1) by (rule sum_list_distinct_conv_sum_set[symmetric])
    finally show ?thesis by (simp add: comp_def)
  qed
  from measureText_join[OF ne] b l len assms(4) foldl_addSection[of "map mm A"]
  show ?thesis by (cases "measureText (join [LF, LF] (map tx R))") simp
qed

lemma fullPass_added:
  "fullPass h s cs order (st, inc, cnt) = Inr (st', inc', cnt') \<Longrightarrow> distinct order
   \<Longrightarrow> set order \<inter> fset inc = {}
   \<Longrightarrow> \<exists>added. distinct added \<and> set added \<subseteq> set order \<and> fset inc' = fset inc \<union> set added
         \<and> st' = foldl addSection st (map (\<lambda>i. c_fullMetrics (cs ! i)) added)"
proof (induction order arbitrary: st inc cnt)
  case Nil
  then have "st' = st" "inc' = inc" by auto
  then show ?case by (intro exI[of _ "[]"]) simp
next
  case (Cons a order)
  from Cons.prems(2,3) have d: "distinct order" and disj: "set order \<inter> fset inc = {}"
    and a_rest: "a \<notin> set order" by auto
  show ?case
  proof (cases "length cs \<le> a")
    case True
    with Cons.prems(1) show ?thesis by simp
  next
    case False
    show ?thesis
    proof (cases "canFitSection h st (c_fullMetrics (cs ! a))")
      case True
      with False Cons.prems(1) have rec:
        "fullPass h s cs order (addSection st (c_fullMetrics (cs ! a)), finsert a inc,
           if c_ok (cs ! a) then cnt + 1 else cnt) = Inr (st', inc', cnt')"
        by (simp add: Let_def)
      have disj': "set order \<inter> fset (finsert a inc) = {}" using disj a_rest by auto
      from Cons.IH[OF rec d disj'] obtain added where
        added: "distinct added" "set added \<subseteq> set order" "fset inc' = fset (finsert a inc) \<union> set added"
          "st' = foldl addSection (addSection st (c_fullMetrics (cs ! a))) (map (\<lambda>i. c_fullMetrics (cs ! i)) added)"
        by blast
      from added a_rest show ?thesis by (intro exI[of _ "a # added"]) auto
    next
      case nofit: False
      show ?thesis
      proof (cases "s = RequestOrder")
        case True
        with nofit False Cons.prems(1) have "st' = st" "inc' = inc" by (auto simp: Let_def)
        then show ?thesis by (intro exI[of _ "[]"]) simp
      next
        case False2: False
        with nofit False Cons.prems(1) have rec: "fullPass h s cs order (st, inc, cnt) = Inr (st', inc', cnt')"
          by (simp add: Let_def)
        from Cons.IH[OF rec d disj] obtain added where
          "distinct added" "set added \<subseteq> set order" "fset inc' = fset inc \<union> set added"
          "st' = foldl addSection st (map (\<lambda>i. c_fullMetrics (cs ! i)) added)"
          by blast
        then show ?thesis by (intro exI[of _ added]) auto
      qed
    qed
  qed
qed

lemma fullPass_bound:
  "fullPass h s cs order (st, inc, cnt) = Inr (st', inc', cnt')
   \<Longrightarrow> usedBytes st \<le> DEFAULT_MAX_BYTES h \<and> usedLines st \<le> DEFAULT_MAX_LINES h
   \<Longrightarrow> usedBytes st' \<le> DEFAULT_MAX_BYTES h \<and> usedLines st' \<le> DEFAULT_MAX_LINES h"
proof (induction order arbitrary: st inc cnt)
  case Nil
  then show ?case by auto
next
  case (Cons a order)
  show ?case
  proof (cases "length cs \<le> a")
    case True
    with Cons.prems(1) show ?thesis by simp
  next
    case False
    show ?thesis
    proof (cases "canFitSection h st (c_fullMetrics (cs ! a))")
      case True
      with False Cons.prems(1) have rec:
        "fullPass h s cs order (addSection st (c_fullMetrics (cs ! a)), finsert a inc,
           if c_ok (cs ! a) then cnt + 1 else cnt) = Inr (st', inc', cnt')"
        by (simp add: Let_def)
      from True have "usedBytes (addSection st (c_fullMetrics (cs ! a))) \<le> DEFAULT_MAX_BYTES h
          \<and> usedLines (addSection st (c_fullMetrics (cs ! a))) \<le> DEFAULT_MAX_LINES h"
        by (auto simp: canFitSection_def addSection_def Let_def split: if_splits)
      from Cons.IH[OF rec this] show ?thesis .
    next
      case nofit: False
      show ?thesis
      proof (cases "s = RequestOrder")
        case True
        with nofit False Cons.prems show ?thesis by (auto simp: Let_def)
      next
        case False2: False
        with nofit False Cons.prems(1) have rec: "fullPass h s cs order (st, inc, cnt) = Inr (st', inc', cnt')"
          by (simp add: Let_def)
        from Cons.IH[OF rec Cons.prems(2)] show ?thesis .
      qed
    qed
  qed
qed

lemma buildPlan_accounting:
  assumes bp: "buildPlan h s order cs = Inr plan"
    and dist: "distinct order"
    and range: "set order \<subseteq> {0..<length cs}"
    and wf: "\<forall>c \<in> set cs. c_fullMetrics c = measureText (c_fullText c)"
  shows "(renderSections plan cs \<noteq> [] \<longrightarrow>
            measureText (plannedOutputText plan cs)
              = \<lparr> bytes = plan_usedBytes plan, lines = plan_usedLines plan \<rparr>)
       \<and> (renderSections plan cs = [] \<longrightarrow>
            plannedOutputText plan cs = [] \<and> plan_usedBytes plan = 0 \<and> plan_usedLines plan = 0)
       \<and> plan_sectionCount plan = length (renderSections plan cs)
       \<and> (0 \<le> DEFAULT_MAX_BYTES h \<and> 0 \<le> DEFAULT_MAX_LINES h \<longrightarrow>
            plan_usedBytes plan \<le> DEFAULT_MAX_BYTES h \<and> plan_usedLines plan \<le> DEFAULT_MAX_LINES h)"
proof -
  let ?init = "\<lparr> usedBytes = 0, usedLines = 0, sectionCount = 0 \<rparr>"
  let ?m = "\<lambda>i. c_fullMetrics (cs ! i)"
  from bp obtain st inc cnt where
    fp: "fullPass h s cs order (?init, {||}, 0) = Inr (st, inc, cnt)"
    by (auto simp: buildPlan_def split: sum.splits)
  obtain ps st2 where pp: "partialPass h cs inc st 0 = (ps, st2)"
    by (cases "partialPass h cs inc st 0") auto
  from bp fp pp have plan:
    "plan_fullIncluded plan = inc" "plan_partialSection plan = ps"
    "plan_usedBytes plan = usedBytes st2" "plan_usedLines plan = usedLines st2"
    "plan_sectionCount plan = sectionCount st2"
    by (auto simp: buildPlan_def)
  note res = partialPass_result[OF pp]
  have e1: "set order \<inter> fset {||} = {}" by simp
  from fullPass_added[OF fp dist e1] obtain added where
    added: "distinct added" "set added \<subseteq> set order" "fset inc = set added"
      "st = foldl addSection ?init (map ?m added)"
    by auto
  define pl where "pl = (case ps of None \<Rightarrow> [] | Some sec \<Rightarrow> [s_index sec])"
  define pm where "pm = (case ps of None \<Rightarrow> ?m 0 | Some sec \<Rightarrow> s_metrics sec)"
  define mm where "mm = (\<lambda>k. if k |\<in>| inc then ?m k else pm)"
  let ?A = "added @ pl"
  let ?mm = mm
  let ?tx = "\<lambda>k. hd (sectionAt plan cs k)"
  let ?R = "filter (\<lambda>k. sectionAt plan cs k \<noteq> []) [0..<length cs]"
  have render: "renderSections plan cs = map ?tx ?R"
    unfolding renderSections_def by (rule concat_map_singletons) (rule sectionAt_length)
  have inc_range: "\<And>k. k |\<in>| inc \<Longrightarrow> k < length cs" using added(2,3) range by auto
  have distA: "distinct ?A" using added(1,3) res by (auto simp: pl_def split: option.splits)
  have distR: "distinct ?R" by simp
  have setRA: "set ?R = set ?A"
    using added(3) res inc_range plan(1,2)
    by (auto simp: pl_def sectionAt_def split: option.splits if_splits)
  have txmm: "\<forall>k \<in> set ?A. measureText (?tx k) = ?mm k"
  proof
    fix k assume k: "k \<in> set ?A"
    show "measureText (?tx k) = ?mm k"
    proof (cases "k |\<in>| inc")
      case True
      then have "cs ! k \<in> set cs" using inc_range by simp
      with wf True plan(1) show ?thesis by (simp add: sectionAt_def mm_def)
    next
      case False
      with k added(3) obtain sec where "ps = Some sec" "k = s_index sec"
        by (auto simp: pl_def split: option.splits)
      with False res plan(1,2) show ?thesis by (simp add: sectionAt_def mm_def pm_def)
    qed
  qed
  have mapmm: "map mm added = map ?m added" using added(3) by (auto simp: mm_def)
  have st2: "st2 = foldl addSection ?init (map ?mm ?A)"
  proof (cases ps)
    case None
    with res have "st2 = st" by simp
    moreover from None have "pl = []" by (simp add: pl_def)
    ultimately show ?thesis by (simp only: append_Nil2 mapmm added(4)[symmetric])
  next
    case (Some sec)
    with res have notin: "s_index sec |\<notin>| inc" and st2': "st2 = addSection st (s_metrics sec)"
      by simp_all
    from Some have pl: "pl = [s_index sec]" and "pm = s_metrics sec" by (simp_all add: pl_def pm_def)
    with notin have mmsec: "mm (s_index sec) = s_metrics sec" by (simp add: mm_def)
    have "foldl addSection ?init (map mm (added @ [s_index sec]))
          = addSection (foldl addSection ?init (map mm added)) (mm (s_index sec))"
      by simp
    also have "\<dots> = addSection st (s_metrics sec)"
      by (simp only: mapmm added(4)[symmetric] mmsec)
    finally show ?thesis by (simp only: st2' pl)
  qed
  have count: "plan_sectionCount plan = length (renderSections plan cs)"
  proof -
    have "length ?R = length ?A" using distA distR setRA by (metis distinct_card)
    with plan(5) st2 foldl_addSection[of "map ?mm ?A"] render show ?thesis by simp
  qed
  have nonempty: "measureText (plannedOutputText plan cs)
              = \<lparr> bytes = plan_usedBytes plan, lines = plan_usedLines plan \<rparr>"
    if "renderSections plan cs \<noteq> []"
  proof -
    from that have "map ?tx ?R \<noteq> []" unfolding render .
    then have "?R \<noteq> []" by (metis list.map_disc_iff)
    then have "set ?A \<noteq> {}" unfolding setRA[symmetric] by (metis set_empty)
    then have "?A \<noteq> []" by (metis set_empty)
    from accounting_exact[of ?A ?R ?tx mm, OF distA distR setRA this txmm] show ?thesis
      unfolding plannedOutputText_def render plan(3,4) st2 .
  qed
  have empty: "plannedOutputText plan cs = [] \<and> plan_usedBytes plan = 0 \<and> plan_usedLines plan = 0"
    if "renderSections plan cs = []"
  proof -
    from that have "map ?tx ?R = []" unfolding render .
    then have "?R = []" by (metis list.map_disc_iff)
    then have "set ?A = {}" unfolding setRA[symmetric] by (metis set_empty)
    then have "?A = []" by (metis set_empty)
    with st2 plan(3,4) that show ?thesis by (simp add: plannedOutputText_def)
  qed
  have bound: "plan_usedBytes plan \<le> DEFAULT_MAX_BYTES h \<and> plan_usedLines plan \<le> DEFAULT_MAX_LINES h"
    if "0 \<le> DEFAULT_MAX_BYTES h \<and> 0 \<le> DEFAULT_MAX_LINES h"
  proof -
    from that have "usedBytes ?init \<le> DEFAULT_MAX_BYTES h \<and> usedLines ?init \<le> DEFAULT_MAX_LINES h" by simp
    from fullPass_bound[OF fp this] have st: "usedBytes st \<le> DEFAULT_MAX_BYTES h" "usedLines st \<le> DEFAULT_MAX_LINES h"
      by simp_all
    show ?thesis
    proof (cases ps)
      case None
      with res st plan(3,4) show ?thesis by simp
    next
      case (Some sec)
      with res st plan(3,4) show ?thesis by (auto simp: addSection_def Let_def split: if_splits)
    qed
  qed
  from nonempty empty count bound show ?thesis by blast
qed

lemma readLoop_wellformed:
  "readLoop readTool aborted stop requests i st = Inr st'
   \<Longrightarrow> \<forall>c \<in> set (rs_candidates st). c_fullMetrics c = measureText (c_fullText c)
   \<Longrightarrow> \<forall>c \<in> set (rs_candidates st'). c_fullMetrics c = measureText (c_fullText c)"
proof (induction readTool aborted stop requests i st rule: readLoop.induct)
  case (1 readTool aborted stop requests i st)
  note unf = readLoop.simps[of readTool aborted stop requests i st]
  show ?case
  proof (cases "i < length requests \<and> \<not> aborted i")
    case False
    with "1.prems" unf show ?thesis by (auto split: if_splits)
  next
    case True
    then have a: "i < length requests" and b: "\<not> aborted i" by simp_all
    show ?thesis
    proof (cases "readTool i (requests ! i)")
      case (Inr items)
      let ?body = "successBody items"
      let ?text = "formatContentBlock (r_path (requests ! i)) ?body (i + 1)"
      let ?st = "\<lparr> rs_candidates = rs_candidates st @
                [\<lparr> c_index = i, c_path = r_path (requests ! i), c_ok = True,
                   c_fullText = ?text, c_fullMetrics = measureText ?text, c_body = Some ?body \<rparr>],
              rs_fileDetails = rs_fileDetails st @
                [\<lparr> d_path = r_path (requests ! i), d_ok = True, d_error = None,
                   d_imageCount = Some (length (filter isImage items)) \<rparr>],
              rs_reads = rs_reads st @ [i] \<rparr>"
      from a b Inr "1.prems"(1) unf have rec: "readLoop readTool aborted stop requests (i + 1) ?st = Inr st'"
        by (simp add: Let_def)
      have wf: "\<forall>c \<in> set (rs_candidates ?st). c_fullMetrics c = measureText (c_fullText c)"
        using "1.prems"(2) by simp
      from "1.IH"(2)[OF a b refl Inr refl refl rec wf] show ?thesis .
    next
      case (Inl message)
      let ?text = "formatContentBlock (r_path (requests ! i)) (js ''[Error: '' @ message @ js '']'') (i + 1)"
      let ?st = "\<lparr> rs_candidates = rs_candidates st @
                [\<lparr> c_index = i, c_path = r_path (requests ! i), c_ok = False,
                   c_fullText = ?text, c_fullMetrics = measureText ?text, c_body = None \<rparr>],
              rs_fileDetails = rs_fileDetails st @
                [\<lparr> d_path = r_path (requests ! i), d_ok = False, d_error = Some message,
                   d_imageCount = None \<rparr>],
              rs_reads = rs_reads st @ [i] \<rparr>"
      have wf: "\<forall>c \<in> set (rs_candidates ?st). c_fullMetrics c = measureText (c_fullText c)"
        using "1.prems"(2) by simp
      show ?thesis
      proof (cases stop)
        case True
        with a b Inl "1.prems"(1) unf have "st' = ?st" by (simp add: Let_def)
        with wf show ?thesis by simp
      next
        case False
        with a b Inl "1.prems"(1) unf have rec: "readLoop readTool aborted stop requests (i + 1) ?st = Inr st'"
          by (simp add: Let_def)
        from "1.IH"(1)[OF a b refl Inl refl refl False rec wf] show ?thesis .
      qed
    qed
  qed
qed

lemma readLoop_total:
  "\<forall>j < length requests. \<not> aborted j \<Longrightarrow> \<exists>st'. readLoop readTool aborted stop requests i st = Inr st'"
proof (induction readTool aborted stop requests i st rule: readLoop.induct)
  case (1 readTool aborted stop requests i st)
  note unf = readLoop.simps[of readTool aborted stop requests i st]
  show ?case
  proof (cases "i < length requests")
    case False
    with unf show ?thesis by simp
  next
    case a: True
    with "1.prems" have b: "\<not> aborted i" by simp
    show ?thesis
    proof (cases "readTool i (requests ! i)")
      case (Inr items)
      from "1.IH"(2)[OF a b refl Inr refl refl "1.prems"] a b Inr unf show ?thesis
        by (simp add: Let_def)
    next
      case (Inl message)
      show ?thesis
      proof (cases stop)
        case True
        with a b Inl unf show ?thesis by (simp add: Let_def)
      next
        case False
        from "1.IH"(1)[OF a b refl Inl refl refl False "1.prems"] a b Inl False unf show ?thesis
          by (simp add: Let_def)
      qed
    qed
  qed
qed

lemma execute_total:
  "\<forall>j < length requests. \<not> aborted j \<Longrightarrow> \<exists>r. execute h readTool aborted requests stop = Inr r"
proof -
  assume "\<forall>j < length requests. \<not> aborted j"
  from readLoop_total[OF this] obtain st where
    "readLoop readTool aborted stop requests 0 \<lparr> rs_candidates = [], rs_fileDetails = [], rs_reads = [] \<rparr> = Inr st"
    by blast
  moreover from selectPlan_total[of h "rs_candidates st"] obtain plan switched where
    "selectPlan h (rs_candidates st) = Inr (plan, switched)" by blast
  ultimately show ?thesis by (simp add: execute_def Let_def)
qed

lemma selectPlan_accounting:
  assumes sel: "selectPlan h cs = Inr (plan, switched)"
    and wf: "\<forall>c \<in> set cs. c_fullMetrics c = measureText (c_fullText c)"
  shows "(renderSections plan cs \<noteq> [] \<longrightarrow>
            measureText (plannedOutputText plan cs)
              = \<lparr> bytes = plan_usedBytes plan, lines = plan_usedLines plan \<rparr>)
       \<and> (renderSections plan cs = [] \<longrightarrow>
            plannedOutputText plan cs = [] \<and> plan_usedBytes plan = 0 \<and> plan_usedLines plan = 0)
       \<and> plan_sectionCount plan = length (renderSections plan cs)
       \<and> (0 \<le> DEFAULT_MAX_BYTES h \<and> 0 \<le> DEFAULT_MAX_LINES h \<longrightarrow>
            plan_usedBytes plan \<le> DEFAULT_MAX_BYTES h \<and> plan_usedLines plan \<le> DEFAULT_MAX_LINES h)"
proof -
  from sel obtain rp sp where
    rp: "buildPlan h RequestOrder (requestOrder cs) cs = Inr rp"
    and sp: "buildPlan h SmallestFirst (smallestFirstOrder cs) cs = Inr sp"
    and plan: "plan = rp \<or> plan = sp"
    by (auto simp: selectPlan_def Let_def split: sum.splits if_splits)
  have r1: "set (requestOrder cs) \<subseteq> {0..<length cs}" using requestOrder_props(2) by simp
  have r2: "set (smallestFirstOrder cs) \<subseteq> {0..<length cs}" using smallestFirstOrder_props(2) by simp
  from plan show ?thesis
  proof
    assume "plan = rp"
    with buildPlan_accounting[OF rp requestOrder_props(1) r1 wf] show ?thesis by simp
  next
    assume "plan = sp"
    with buildPlan_accounting[OF sp smallestFirstOrder_props(1) r2 wf] show ?thesis by simp
  qed
qed

text \<open>
  Claim C7, amended. Take a run of \<^verbatim>\<open>execute\<close> that returns, on a host whose byte
  ceiling is not negative, whose line ceiling is at least 1, and whose
  \<^verbatim>\<open>truncateHead\<close> returns a text within the two ceilings unchanged and unflagged.
  The chosen plan's accounting is exact whenever it holds a section: the text assembled
  by joining the chosen sections with blank lines has exactly \<^verbatim>\<open>usedBytes\<close> bytes and
  \<^verbatim>\<open>usedLines\<close> lines. A plan with no section assembles the empty text, and its
  \<^verbatim>\<open>usedBytes\<close> and \<^verbatim>\<open>usedLines\<close> are 0. In both cases \<^verbatim>\<open>usedBytes\<close> and
  \<^verbatim>\<open>usedLines\<close> are within the ceilings, the final truncation pass returns the
  assembled text as it is, and \<^verbatim>\<open>combinedTruncation\<close> is absent.
\<close>

theorem planned_output_within_budget:
  assumes run: "execute h readTool aborted requests stopOnError = Inr r"
    and bytes0: "0 \<le> DEFAULT_MAX_BYTES h"
    and lines1: "1 \<le> DEFAULT_MAX_LINES h"
    and contract:
      "\<forall>text. lines (measureText text) \<le> DEFAULT_MAX_LINES h
              \<and> bytes (measureText text) \<le> DEFAULT_MAX_BYTES h
          \<longrightarrow> truncateHead h text (DEFAULT_MAX_LINES h) (DEFAULT_MAX_BYTES h)
                = \<lparr> tr_content = text, tr_truncated = False \<rparr>"
  shows "\<exists>st plan switched.
           readLoop readTool aborted stopOnError requests 0
             \<lparr> rs_candidates = [], rs_fileDetails = [], rs_reads = [] \<rparr> = Inr st
         \<and> selectPlan h (rs_candidates st) = Inr (plan, switched)
         \<and> (plan_sectionCount plan > 0 \<longrightarrow>
              measureText (plannedOutputText plan (rs_candidates st))
                = \<lparr> bytes = plan_usedBytes plan, lines = plan_usedLines plan \<rparr>)
         \<and> (plan_sectionCount plan = 0 \<longrightarrow>
              plannedOutputText plan (rs_candidates st) = []
              \<and> plan_usedBytes plan = 0 \<and> plan_usedLines plan = 0)
         \<and> plan_usedBytes plan \<le> DEFAULT_MAX_BYTES h
         \<and> plan_usedLines plan \<le> DEFAULT_MAX_LINES h
         \<and> outputText r = plannedOutputText plan (rs_candidates st)
         \<and> combinedTruncation (details r) = None"
proof -
  let ?init = "\<lparr> rs_candidates = [], rs_fileDetails = [], rs_reads = [] \<rparr>"
  from run obtain st where st: "readLoop readTool aborted stopOnError requests 0 ?init = Inr st"
    by (auto simp: execute_def split: sum.splits)
  from selectPlan_total[of h "rs_candidates st"] obtain plan switched where
    sel: "selectPlan h (rs_candidates st) = Inr (plan, switched)" by blast
  let ?cs = "rs_candidates st"
  let ?text = "plannedOutputText plan ?cs"
  have wf: "\<forall>c \<in> set ?cs. c_fullMetrics c = measureText (c_fullText c)"
    by (rule readLoop_wellformed[OF st]) simp
  from lines1 have lines0: "0 \<le> DEFAULT_MAX_LINES h" by simp
  note acc = selectPlan_accounting[OF sel wf]
  from acc have cnt: "plan_sectionCount plan = length (renderSections plan ?cs)" by blast
  from acc cnt have exact: "plan_sectionCount plan > 0 \<longrightarrow>
      measureText ?text = \<lparr> bytes = plan_usedBytes plan, lines = plan_usedLines plan \<rparr>"
    by auto
  from acc cnt have none: "plan_sectionCount plan = 0 \<longrightarrow>
      ?text = [] \<and> plan_usedBytes plan = 0 \<and> plan_usedLines plan = 0"
    by auto
  from acc bytes0 lines0 have bound:
    "plan_usedBytes plan \<le> DEFAULT_MAX_BYTES h" "plan_usedLines plan \<le> DEFAULT_MAX_LINES h"
    by blast+
  have fits: "lines (measureText ?text) \<le> DEFAULT_MAX_LINES h \<and> bytes (measureText ?text) \<le> DEFAULT_MAX_BYTES h"
  proof (cases "plan_sectionCount plan > 0")
    case True
    with exact bound show ?thesis by simp
  next
    case False
    with none have "?text = []" by simp
    with bytes0 lines1 show ?thesis by (simp add: measureText_Nil)
  qed
  with contract have tr: "truncateHead h ?text (DEFAULT_MAX_LINES h) (DEFAULT_MAX_BYTES h)
      = \<lparr> tr_content = ?text, tr_truncated = False \<rparr>" by blast
  from run st sel tr have out: "outputText r = ?text" "combinedTruncation (details r) = None"
    by (auto simp: execute_def Let_def)
  from st sel exact none bound out show ?thesis
    by (intro exI[of _ st] exI[of _ plan] exI[of _ switched] conjI)
qed

lemma exampleHost_contract:
  "\<forall>text. lines (measureText text) \<le> DEFAULT_MAX_LINES exampleHost
          \<and> bytes (measureText text) \<le> DEFAULT_MAX_BYTES exampleHost
      \<longrightarrow> truncateHead exampleHost text (DEFAULT_MAX_LINES exampleHost) (DEFAULT_MAX_BYTES exampleHost)
            = \<lparr> tr_content = text, tr_truncated = False \<rparr>"
  by (simp add: exampleHost_def exampleTruncateHead_def measureText_def)

theorem planned_output_within_budget_witness:
  "\<exists>r. execute exampleHost
          (\<lambda>i request. if r_path request = js ''/a'' then Inr [TextItem (js ''a'')]
                        else Inr [TextItem (js ''b'')])
          (\<lambda>i. False)
          [\<lparr> r_path = js ''/a'', r_offset = None, r_limit = None \<rparr>,
           \<lparr> r_path = js ''/b'', r_offset = None, r_limit = None \<rparr>]
          False = Inr r
       \<and> combinedTruncation (details r) = None"
proof -
  let ?tool = "\<lambda>(i :: nat) request. if r_path request = js ''/a'' then Inr [TextItem (js ''a'')]
                        else (Inr [TextItem (js ''b'')] :: jsstring + ContentItem list)"
  let ?reqs = "[\<lparr> r_path = js ''/a'', r_offset = None, r_limit = None \<rparr>,
           \<lparr> r_path = js ''/b'', r_offset = None, r_limit = None \<rparr>]"
  have "\<forall>j < length ?reqs. \<not> (\<lambda>i. False) j" by simp
  from execute_total[OF this, of exampleHost ?tool False] obtain r where
    r: "execute exampleHost ?tool (\<lambda>i. False) ?reqs False = Inr r" by blast
  have b: "0 \<le> DEFAULT_MAX_BYTES exampleHost" and l: "1 \<le> DEFAULT_MAX_LINES exampleHost"
    by (simp_all add: exampleHost_def)
  from planned_output_within_budget[OF r b l exampleHost_contract]
  have "combinedTruncation (details r) = None" by blast
  with r show ?thesis by blast
qed

lemma longLine_facts:
  "longLine \<noteq> []" "split_lines longLine = [longLine]" "byteLength longLine = 51200"
proof -
  show "longLine \<noteq> []" by (simp add: longLine_def)
  show "split_lines longLine = [longLine]" by (rule split_lines_no_LF) (simp add: longLine_def)
  have "byteLength longLine = length longLine" by (rule byteLength_ascii) (simp add: longLine_def)
  then show "byteLength longLine = 51200" by (simp add: longLine_def)
qed

lemma formatContentBlock_bytes_ge:
  "bytes (measureText body) + 3 \<le> bytes (measureText (formatContentBlock p body i))"
proof -
  let ?d = "pickDelimiter p i body"
  have "formatContentBlock p body i
        = (js ''@'' @ p) @ LF # ((js ''<<'' @ [0x27] @ ?d @ [0x27]) @ LF # (body @ LF # ?d))"
    by (simp add: formatContentBlock_def Let_def)
  then have "bytes (measureText (formatContentBlock p body i))
        = bytes (measureText (js ''@'' @ p)) + 1
          + (bytes (measureText (js ''<<'' @ [0x27] @ ?d @ [0x27])) + 1
             + (bytes (measureText body) + 1 + bytes (measureText ?d)))"
    by (simp only: measureText_append_LF)
  moreover have "0 \<le> bytes (measureText t)" for t by (simp add: measureText_def)
  ultimately show ?thesis
    by (smt (verit, ccfv_threshold))
qed

lemma longError_misfit:
  "\<not> canFitSection exampleHost \<lparr> usedBytes = 0, usedLines = 0, sectionCount = 0 \<rparr>
       (c_fullMetrics longErrorCandidate)"
proof -
  let ?body = "js ''[Error: '' @ longLine @ js '']''"
  have "byteLength ?body = length ?body"
    by (rule byteLength_ascii) (simp add: js_def longLine_def)
  then have "bytes (measureText ?body) = 51209"
    by (simp add: measureText_def js_def longLine_def)
  with formatContentBlock_bytes_ge[of ?body "js ''/a''" 1]
  have "51200 < bytes (measureText (formatContentBlock (js ''/a'') ?body 1))" by simp
  then show ?thesis
    by (simp add: canFitSection_def exampleHost_def longErrorCandidate_def)
qed

lemma longError_fullPass:
  "fullPass exampleHost s [longErrorCandidate] [0]
     (\<lparr> usedBytes = 0, usedLines = 0, sectionCount = 0 \<rparr>, {||}, 0)
   = Inr (\<lparr> usedBytes = 0, usedLines = 0, sectionCount = 0 \<rparr>, {||}, 0)"
  using longError_misfit by (simp add: Let_def)

lemma longError_partialPass:
  "partialPass exampleHost [longErrorCandidate] {||}
     \<lparr> usedBytes = 0, usedLines = 0, sectionCount = 0 \<rparr> 0
   = (None, \<lparr> usedBytes = 0, usedLines = 0, sectionCount = 0 \<rparr>)"
proof -
  have hb: "DEFAULT_MAX_BYTES exampleHost = 51200" "DEFAULT_MAX_LINES exampleHost = 2000"
    by (simp_all add: exampleHost_def)
  have none: "buildPartialSection exampleHost longErrorCandidate 2000 51200 = None"
    by (simp add: buildPartialSection_def longErrorCandidate_def)
  have one: "partialPass exampleHost [longErrorCandidate] {||}
     \<lparr> usedBytes = 0, usedLines = 0, sectionCount = 0 \<rparr> (Suc 0)
   = (None, \<lparr> usedBytes = 0, usedLines = 0, sectionCount = 0 \<rparr>)"
    by (subst partialPass.simps) simp
  show ?thesis
    by (subst partialPass.simps) (simp add: hb none one Let_def)
qed

lemma longError_buildPlan:
  "buildPlan exampleHost s [0] [longErrorCandidate] = Inr (emptyPlan \<lparr> plan_strategy := s \<rparr>)"
  unfolding buildPlan_def longError_fullPass
  by (simp add: longError_partialPass omitted_def emptyPlan_def)

lemma longError_selectPlan: "selectPlan exampleHost [longErrorCandidate] = Inr (emptyPlan, False)"
proof -
  have o1: "requestOrder [longErrorCandidate] = [0]" by (simp add: requestOrder_def)
  have o2: "smallestFirstOrder [longErrorCandidate] = [0]"
    by (simp add: smallestFirstOrder_def sortBy_def o1)
  show ?thesis
    by (simp add: selectPlan_def o1 o2 longError_buildPlan Let_def emptyPlan_def)
qed

lemma longError_readLoop:
  "readLoop longErrorTool (\<lambda>i. False) False
     [\<lparr> r_path = js ''/a'', r_offset = None, r_limit = None \<rparr>] 0
     \<lparr> rs_candidates = [], rs_fileDetails = [], rs_reads = [] \<rparr>
   = Inr \<lparr> rs_candidates = [longErrorCandidate],
           rs_fileDetails = [\<lparr> d_path = js ''/a'', d_ok = False, d_error = Some longLine,
                               d_imageCount = None \<rparr>],
           rs_reads = [0] \<rparr>"
proof -
  have last: "readLoop longErrorTool (\<lambda>i. False) False
     [\<lparr> r_path = js ''/a'', r_offset = None, r_limit = None \<rparr>] (Suc 0) st = Inr st" for st
    by (subst readLoop.simps) simp
  show ?thesis
    by (subst readLoop.simps) (simp add: longErrorTool_def last Let_def longErrorCandidate_def)
qed

text \<open>
  The claim as stated, for every plan, fails at the plan that includes nothing. A read
  that fails with a message of 51200 characters gives an error block over the byte
  ceiling of the example host, and an error candidate has no body for a partial
  section: the plan is empty on both strategies, with \<^verbatim>\<open>usedLines = 0\<close>. The
  assembled text is the empty string, which \<^verbatim>\<open>measureText\<close> counts as one line.
\<close>

theorem planned_output_accounting_counterexample:
  "readLoop longErrorTool (\<lambda>i. False) False
     [\<lparr> r_path = js ''/a'', r_offset = None, r_limit = None \<rparr>] 0
     \<lparr> rs_candidates = [], rs_fileDetails = [], rs_reads = [] \<rparr>
   = Inr \<lparr> rs_candidates = [longErrorCandidate],
           rs_fileDetails = [\<lparr> d_path = js ''/a'', d_ok = False, d_error = Some longLine,
                               d_imageCount = None \<rparr>],
           rs_reads = [0] \<rparr>
   \<and> selectPlan exampleHost [longErrorCandidate] = Inr (emptyPlan, False)
   \<and> measureText (plannedOutputText emptyPlan [longErrorCandidate]) = \<lparr> bytes = 0, lines = 1 \<rparr>
   \<and> lines (measureText (plannedOutputText emptyPlan [longErrorCandidate])) \<noteq> plan_usedLines emptyPlan"
proof -
  have "plannedOutputText emptyPlan [longErrorCandidate] = []"
    by (simp add: plannedOutputText_def renderSections_def sectionAt_def emptyPlan_def)
  then have "measureText (plannedOutputText emptyPlan [longErrorCandidate]) = \<lparr> bytes = 0, lines = 1 \<rparr>"
    by (simp add: measureText_Nil)
  moreover have "plan_usedLines emptyPlan = 0" by (simp add: emptyPlan_def)
  ultimately show ?thesis using longError_readLoop longError_selectPlan by simp
qed

lemma longLine_misfit:
  "\<not> canFitSection exampleHost \<lparr> usedBytes = 0, usedLines = 0, sectionCount = 0 \<rparr>
       (c_fullMetrics longLineCandidate)"
proof -
  have "bytes (measureText longLine) = 51200" by (simp add: measureText_def longLine_facts)
  with formatContentBlock_bytes_ge[of longLine "js ''/a''" 1]
  have "51200 < bytes (measureText (formatContentBlock (js ''/a'') longLine 1))" by simp
  then show ?thesis
    by (simp add: canFitSection_def exampleHost_def longLineCandidate_def)
qed

lemma longLine_fullPass:
  "fullPass exampleHost s [longLineCandidate] [0]
     (\<lparr> usedBytes = 0, usedLines = 0, sectionCount = 0 \<rparr>, {||}, 0)
   = Inr (\<lparr> usedBytes = 0, usedLines = 0, sectionCount = 0 \<rparr>, {||}, 0)"
  using longLine_misfit by (simp add: Let_def)

lemma longLine_truncateHead:
  "truncateHead exampleHost longLine 1997 51104 = \<lparr> tr_content = [], tr_truncated = True \<rparr>"
  by (simp add: exampleHost_def exampleTruncateHead_def longLine_facts)

lemma longLine_partial:
  "buildPartialSection exampleHost longLineCandidate 2000 51200 = None"
proof -
  have "partialAttempts exampleHost longLineCandidate longLine 2000 51200 1997 51104 0 = None"
    by (subst partialAttempts.simps) (simp add: longLine_truncateHead Let_def)
  then show ?thesis
    by (simp add: buildPartialSection_def longLineCandidate_def longLine_facts Let_def)
qed

lemma longLine_partialPass:
  "partialPass exampleHost [longLineCandidate] {||}
     \<lparr> usedBytes = 0, usedLines = 0, sectionCount = 0 \<rparr> 0
   = (None, \<lparr> usedBytes = 0, usedLines = 0, sectionCount = 0 \<rparr>)"
proof -
  have hb: "DEFAULT_MAX_BYTES exampleHost = 51200" "DEFAULT_MAX_LINES exampleHost = 2000"
    by (simp_all add: exampleHost_def)
  have one: "partialPass exampleHost [longLineCandidate] {||}
     \<lparr> usedBytes = 0, usedLines = 0, sectionCount = 0 \<rparr> (Suc 0)
   = (None, \<lparr> usedBytes = 0, usedLines = 0, sectionCount = 0 \<rparr>)"
    by (subst partialPass.simps) simp
  show ?thesis
    by (subst partialPass.simps) (simp add: hb longLine_partial one Let_def)
qed

lemma longLine_buildPlan:
  "buildPlan exampleHost s [0] [longLineCandidate] = Inr (emptyPlan \<lparr> plan_strategy := s \<rparr>)"
  unfolding buildPlan_def longLine_fullPass
  by (simp add: longLine_partialPass omitted_def emptyPlan_def)

lemma longLine_selectPlan: "selectPlan exampleHost [longLineCandidate] = Inr (emptyPlan, False)"
proof -
  have o1: "requestOrder [longLineCandidate] = [0]" by (simp add: requestOrder_def)
  have o2: "smallestFirstOrder [longLineCandidate] = [0]"
    by (simp add: smallestFirstOrder_def sortBy_def o1)
  show ?thesis
    by (simp add: selectPlan_def o1 o2 longLine_buildPlan Let_def emptyPlan_def)
qed

lemma longLine_readLoop:
  "readLoop longLineTool (\<lambda>i. False) False
     [\<lparr> r_path = js ''/a'', r_offset = None, r_limit = None \<rparr>] 0
     \<lparr> rs_candidates = [], rs_fileDetails = [], rs_reads = [] \<rparr>
   = Inr \<lparr> rs_candidates = [longLineCandidate],
           rs_fileDetails = [\<lparr> d_path = js ''/a'', d_ok = True, d_error = None,
                               d_imageCount = Some 0 \<rparr>],
           rs_reads = [0] \<rparr>"
proof -
  have body: "successBody [TextItem longLine] = longLine"
    by (simp add: successBody_def Let_def longLine_facts)
  have last: "readLoop longLineTool (\<lambda>i. False) False
     [\<lparr> r_path = js ''/a'', r_offset = None, r_limit = None \<rparr>] (Suc 0) st = Inr st" for st
    by (subst readLoop.simps) simp
  show ?thesis
    by (subst readLoop.simps) (simp add: longLineTool_def body last Let_def longLineCandidate_def)
qed

text \<open>
  The same happens on the example host with a successful read whose single line is too
  long: the block is over the byte ceiling, and no partial section fits either, since
  already the first line of the body is over the byte cap.
\<close>

lemma longLine_plan_is_empty:
  "readLoop longLineTool (\<lambda>i. False) False
     [\<lparr> r_path = js ''/a'', r_offset = None, r_limit = None \<rparr>] 0
     \<lparr> rs_candidates = [], rs_fileDetails = [], rs_reads = [] \<rparr>
   = Inr \<lparr> rs_candidates = [longLineCandidate],
           rs_fileDetails = [\<lparr> d_path = js ''/a'', d_ok = True, d_error = None,
                               d_imageCount = Some 0 \<rparr>],
           rs_reads = [0] \<rparr>
   \<and> selectPlan exampleHost [longLineCandidate] = Inr (emptyPlan, False)
   \<and> measureText (plannedOutputText emptyPlan [longLineCandidate]) = \<lparr> bytes = 0, lines = 1 \<rparr>
   \<and> lines (measureText (plannedOutputText emptyPlan [longLineCandidate])) \<noteq> plan_usedLines emptyPlan"
proof -
  have "plannedOutputText emptyPlan [longLineCandidate] = []"
    by (simp add: plannedOutputText_def renderSections_def sectionAt_def emptyPlan_def)
  then have "measureText (plannedOutputText emptyPlan [longLineCandidate]) = \<lparr> bytes = 0, lines = 1 \<rparr>"
    by (simp add: measureText_Nil)
  moreover have "plan_usedLines emptyPlan = 0" by (simp add: emptyPlan_def)
  ultimately show ?thesis using longLine_readLoop longLine_selectPlan by simp
qed

end
